theory Spec2Isabelle
  imports Complex_Main "HOL-Library.Word" "HOL-Library.Log_Nat"
begin

section \<open>Single-precision floating point\<close>

text \<open>
  The kernels of \<^verbatim>\<open>dpp/isa/avx512.h\<close> compute on packed IEEE 754 binary32 lanes.
  A lane is modelled by its decoded content: a finite value \<open>(-1)^s * m * 2^e\<close> with a
  sign, a significand \<open>0 \<le> m < 2^24\<close> and an exponent \<open>-149 \<le> e \<le> 104\<close> of the last
  significand bit, an infinity with its sign, or a NaN. Every operation rounds to
  nearest, ties to even, the rounding mode MXCSR holds unless a program changes it
  (this header never does). Subnormal numbers are kept (no flush to zero).
\<close>

datatype f32 = Finite bool int int | Infinity bool | NaN

fun f32_valid :: "f32 \<Rightarrow> bool" where
  "f32_valid (Finite s m e) =
     (0 \<le> m \<and> m < 2 ^ 24 \<and> - 149 \<le> e \<and> e \<le> 104 \<and> (2 ^ 23 \<le> m \<or> e = - 149))"
| "f32_valid (Infinity s) = True"
| "f32_valid NaN = True"

fun is_nan :: "f32 \<Rightarrow> bool" where
  "is_nan NaN = True"
| "is_nan _ = False"

fun is_finite :: "f32 \<Rightarrow> bool" where
  "is_finite (Finite s m e) = True"
| "is_finite _ = False"

fun is_zero :: "f32 \<Rightarrow> bool" where
  "is_zero (Finite s m e) = (m = 0)"
| "is_zero _ = False"

text \<open>The real number a finite lane stands for (0 for the others).\<close>

fun valof :: "f32 \<Rightarrow> real" where
  "valof (Finite s m e) = (if s then - 1 else 1) * of_int m * 2 powi e"
| "valof _ = 0"

text \<open>Overflow: a rounded result beyond the largest exponent is an infinity.\<close>

definition f32_pack :: "bool \<Rightarrow> int \<Rightarrow> int \<Rightarrow> f32" where
  "f32_pack s m e = (if 104 < e then Infinity s else Finite s m e)"

text \<open>
  \<open>f32_round s M E\<close> rounds the exact magnitude \<open>M * 2^E\<close> with sign \<open>s\<close> to
  binary32: 24 significant bits, or fewer at the smallest exponent; the bits shifted out
  decide the direction, and a tie goes to the even significand.
\<close>

definition f32_round :: "bool \<Rightarrow> int \<Rightarrow> int \<Rightarrow> f32" where
  "f32_round s M E =
     (if M = 0 then Finite s 0 (- 149)
      else
        let e = max (E + bitlen M - 24) (- 149) in
        if e \<le> E then f32_pack s (M * 2 ^ nat (E - e)) e
        else
          let sh = nat (e - E);
              q = M div 2 ^ sh;
              r = M mod 2 ^ sh;
              half = 2 ^ (sh - 1);
              m = (if half < r \<or> (r = half \<and> odd q) then q + 1 else q)
          in if m = 2 ^ 24 then f32_pack s (2 ^ 23) (e + 1) else f32_pack s m e)"

text \<open>\<^verbatim>\<open>static_cast<float>(n)\<close> for an integer, and the float literals of the header.\<close>

definition f32_of_int :: "int \<Rightarrow> f32" where
  "f32_of_int n = f32_round (n < 0) \<bar>n\<bar> 0"

text \<open>A finite value as an integer multiple of \<open>2^c\<close>, for \<open>c\<close> at most its exponent.\<close>

definition scaled :: "bool \<Rightarrow> int \<Rightarrow> int \<Rightarrow> int \<Rightarrow> int" where
  "scaled s m e c = (if s then - m else m) * 2 ^ nat (e - c)"

fun f32_mul :: "f32 \<Rightarrow> f32 \<Rightarrow> f32" where
  "f32_mul NaN y = NaN"
| "f32_mul x NaN = NaN"
| "f32_mul (Infinity s) (Infinity t) = Infinity (s \<noteq> t)"
| "f32_mul (Infinity s) (Finite t n d) = (if n = 0 then NaN else Infinity (s \<noteq> t))"
| "f32_mul (Finite s m e) (Infinity t) = (if m = 0 then NaN else Infinity (s \<noteq> t))"
| "f32_mul (Finite s m e) (Finite t n d) = f32_round (s \<noteq> t) (m * n) (e + d)"

fun f32_add :: "f32 \<Rightarrow> f32 \<Rightarrow> f32" where
  "f32_add NaN y = NaN"
| "f32_add x NaN = NaN"
| "f32_add (Infinity s) (Infinity t) = (if s = t then Infinity s else NaN)"
| "f32_add (Infinity s) (Finite t n d) = Infinity s"
| "f32_add (Finite s m e) (Infinity t) = Infinity t"
| "f32_add (Finite s m e) (Finite t n d) =
     (let c = min e d;
          z = scaled s m e c + scaled t n d c
      in if z = 0 then Finite (s \<and> t) 0 (- 149)
         else f32_round (z < 0) \<bar>z\<bar> c)"

text \<open>Ordered comparisons: false as soon as an operand is a NaN.\<close>

fun f32_lt :: "f32 \<Rightarrow> f32 \<Rightarrow> bool" where
  "f32_lt NaN y = False"
| "f32_lt x NaN = False"
| "f32_lt (Infinity s) (Infinity t) = (s \<and> \<not> t)"
| "f32_lt (Infinity s) (Finite t n d) = s"
| "f32_lt (Finite s m e) (Infinity t) = (\<not> t)"
| "f32_lt (Finite s m e) (Finite t n d) =
     (let c = min e d in scaled s m e c < scaled t n d c)"

fun f32_le :: "f32 \<Rightarrow> f32 \<Rightarrow> bool" where
  "f32_le NaN y = False"
| "f32_le x NaN = False"
| "f32_le (Infinity s) (Infinity t) = (s \<or> \<not> t)"
| "f32_le (Infinity s) (Finite t n d) = s"
| "f32_le (Finite s m e) (Infinity t) = (\<not> t)"
| "f32_le (Finite s m e) (Finite t n d) =
     (let c = min e d in scaled s m e c \<le> scaled t n d c)"

text \<open>
  MAXPS and MINPS on one lane: when both operands are zeros, or one of them is a NaN,
  the result is the second operand.
\<close>

definition maxps :: "f32 \<Rightarrow> f32 \<Rightarrow> f32" where
  "maxps a b =
     (if is_zero a \<and> is_zero b then b
      else if is_nan a \<or> is_nan b then b
      else if f32_lt b a then a else b)"

definition minps :: "f32 \<Rightarrow> f32 \<Rightarrow> f32" where
  "minps a b =
     (if is_zero a \<and> is_zero b then b
      else if is_nan a \<or> is_nan b then b
      else if f32_lt a b then a else b)"

text \<open>Rounding \<open>m * 2^e\<close> to the nearest integer, ties to even.\<close>

definition rne_int :: "int \<Rightarrow> int \<Rightarrow> int" where
  "rne_int m e =
     (if 0 \<le> e then m * 2 ^ nat e
      else
        let sh = nat (- e);
            q = m div 2 ^ sh;
            r = m mod 2 ^ sh;
            half = 2 ^ (sh - 1)
        in if half < r \<or> (r = half \<and> odd q) then q + 1 else q)"

text \<open>
  CVTPS2DQ on one lane: the rounded integer, or the integer indefinite value
  \<open>0x80000000\<close> for a NaN, an infinity or a result outside the 32-bit range.
\<close>

definition int_indefinite :: "32 word" where
  "int_indefinite = 0x80000000"

fun cvtps2dq :: "f32 \<Rightarrow> 32 word" where
  "cvtps2dq (Finite s m e) =
     (let n = (if s then - rne_int m e else rne_int m e)
      in if - (2 ^ 31) \<le> n \<and> n < 2 ^ 31 then word_of_int n else int_indefinite)"
| "cvtps2dq (Infinity s) = int_indefinite"
| "cvtps2dq NaN = int_indefinite"

text \<open>
  A finite lane with a non-negative significand whose value is the integer \<open>n\<close>: the
  lanes on which the conversions between integers and floats lose nothing.
\<close>

fun int_valued :: "f32 \<Rightarrow> int \<Rightarrow> bool" where
  "int_valued (Finite s m e) n = (0 \<le> m \<and> valof (Finite s m e) = of_int n)"
| "int_valued (Infinity s) n = False"
| "int_valued NaN n = False"

text \<open>
  The integers binary32 holds exactly: at most 24 significant bits, the bits below them
  zero (for magnitudes below \<open>2^128\<close>, so for every 32-bit integer and every sum of
  two). \<open>f32_holds_iff\<close> below shows these are the integers the cast to float keeps.
\<close>

definition f32_holds :: "int \<Rightarrow> bool" where
  "f32_holds n \<longleftrightarrow> \<bar>n\<bar> mod 2 ^ nat (bitlen \<bar>n\<bar> - 24) = 0"

section \<open>The 512-bit registers and their intrinsics\<close>

text \<open>
  A register is the list of its 16 lanes, lane 0 first (the element at the lowest
  address after a store). A mask register holds one bit per lane.
\<close>

type_synonym avx_512_float = "f32 list"
type_synonym avx_512_int = "32 word list"
type_synonym mmask16 = "bool list"

definition lanes :: "nat list" where
  "lanes = [0..<16]"

definition mm512_set1_ps :: "f32 \<Rightarrow> avx_512_float" where
  "mm512_set1_ps a = map (\<lambda>i. a) lanes"

text \<open>\<^verbatim>\<open>_mm512_set_ps(e15, ..., e0)\<close>: the last argument goes to lane 0.\<close>

definition mm512_set_ps :: "f32 list \<Rightarrow> avx_512_float" where
  "mm512_set_ps args = map (\<lambda>i. args ! (15 - i)) lanes"

definition mm512_mul_ps :: "avx_512_float \<Rightarrow> avx_512_float \<Rightarrow> avx_512_float" where
  "mm512_mul_ps a b = map (\<lambda>i. f32_mul (a ! i) (b ! i)) lanes"

definition mm512_add_ps :: "avx_512_float \<Rightarrow> avx_512_float \<Rightarrow> avx_512_float" where
  "mm512_add_ps a b = map (\<lambda>i. f32_add (a ! i) (b ! i)) lanes"

text \<open>\<^verbatim>\<open>_mm512_cmp_ps_mask(a, b, _CMP_GE_OQ)\<close>.\<close>

definition mm512_cmp_ps_mask_ge_oq :: "avx_512_float \<Rightarrow> avx_512_float \<Rightarrow> mmask16" where
  "mm512_cmp_ps_mask_ge_oq a b = map (\<lambda>i. f32_le (b ! i) (a ! i)) lanes"

definition mask_not :: "mmask16 \<Rightarrow> mmask16" where
  "mask_not k = map (\<lambda>i. \<not> k ! i) lanes"

text \<open>Write-masked MAXPS and MINPS: a lane whose mask bit is clear is copied from \<open>src\<close>.\<close>

definition mm512_mask_max_ps ::
  "avx_512_float \<Rightarrow> mmask16 \<Rightarrow> avx_512_float \<Rightarrow> avx_512_float \<Rightarrow> avx_512_float" where
  "mm512_mask_max_ps src k a b = map (\<lambda>i. if k ! i then maxps (a ! i) (b ! i) else src ! i) lanes"

definition mm512_mask_min_ps ::
  "avx_512_float \<Rightarrow> mmask16 \<Rightarrow> avx_512_float \<Rightarrow> avx_512_float \<Rightarrow> avx_512_float" where
  "mm512_mask_min_ps src k a b = map (\<lambda>i. if k ! i then minps (a ! i) (b ! i) else src ! i) lanes"

definition mm512_cvtps_epi32 :: "avx_512_float \<Rightarrow> avx_512_int" where
  "mm512_cvtps_epi32 a = map (\<lambda>i. cvtps2dq (a ! i)) lanes"

section \<open>The audio mixer\<close>

definition byte_blocks_per_register :: nat where
  "byte_blocks_per_register = 16"

definition extract_int32_from_avx512 :: "avx_512_int \<Rightarrow> nat \<Rightarrow> 32 word" where
  "extract_int32_from_avx512 val index = val ! index"

text \<open>
  \<^verbatim>\<open>store_values\<close>: the loop over \<open>x = 0 .. 15\<close>, each step one assignment through the
  pointer. The \<^verbatim>\<open>static_cast\<close> to the destination type keeps the low bits of the
  32-bit lane (all of them when the destination is 32 bits wide).
\<close>

definition store_values :: "avx_512_int \<Rightarrow> 'a::len word list \<Rightarrow> 'a word list" where
  "store_values values_to_store storage_location =
     fold (\<lambda>x st. st[x := ucast (extract_int32_from_avx512 values_to_store x)])
       [0..<byte_blocks_per_register] storage_location"

text \<open>\<^verbatim>\<open>gather_values\<close>: each element is read as a signed integer and cast to float.\<close>

definition gather_values :: "'a::len word list \<Rightarrow> avx_512_float" where
  "gather_values vals = map (\<lambda>x. f32_of_int (sint (vals ! x))) [0..<byte_blocks_per_register]"

text \<open>
  The memory a call of \<^verbatim>\<open>collect_single_register\<close> works on: the two arrays its pointer
  arguments point into, and whatever else the program holds (the extension of the
  record). A call on an array with fewer than 16 elements is undefined behaviour,
  \<open>None\<close> in the model.
\<close>

record collect_mem =
  data_in :: "32 word list"
  data_out :: "16 word list"

text \<open>The per-lane gain, the second operand of the outer multiplication.\<close>

definition ramp_gain :: "f32 \<Rightarrow> f32 \<Rightarrow> avx_512_float" where
  "ramp_gain current_gain increment =
     mm512_add_ps (mm512_set1_ps current_gain)
       (mm512_mul_ps (mm512_set1_ps increment)
         (mm512_set_ps (map f32_of_int [0, 1, 2, 3, 4, 5, 6, 7, 8, 9, 10, 11, 12, 13, 14, 15])))"

text \<open>The two masked passes between the multiplication and the conversion.\<close>

definition limit_passes :: "avx_512_float \<Rightarrow> avx_512_float" where
  "limit_passes current_samples_new =
     (let lower_limit = mm512_set1_ps (f32_of_int (- 32768));
          upper_limit = mm512_set1_ps (f32_of_int 32767);
          mask_ge = mm512_cmp_ps_mask_ge_oq current_samples_new (mm512_set1_ps (f32_of_int 0));
          current_samples_new =
            mm512_mask_max_ps current_samples_new mask_ge current_samples_new lower_limit
      in mm512_mask_min_ps current_samples_new (mask_not mask_ge) current_samples_new upper_limit)"

text \<open>
  What the two passes do to one lane, as \<open>limit_passes_nth\<close> shows below: a NaN becomes
  the upper limit and every other value passes unchanged.
\<close>

definition limit_lane :: "f32 \<Rightarrow> f32" where
  "limit_lane p = (if is_nan p then f32_of_int 32767 else p)"

definition collect_single_register ::
  "'a collect_mem_scheme \<Rightarrow> f32 \<Rightarrow> f32 \<Rightarrow> 'a collect_mem_scheme option" where
  "collect_single_register mem current_gain increment =
     (if length (data_in mem) < byte_blocks_per_register
         \<or> length (data_out mem) < byte_blocks_per_register then None
      else
        let current_samples_new =
              mm512_mul_ps (gather_values (data_in mem)) (ramp_gain current_gain increment)
        in Some (mem\<lparr>data_out :=
             store_values (mm512_cvtps_epi32 (limit_passes current_samples_new)) (data_out mem)\<rparr>))"

record combine_mem =
  up_sampled_vector :: "32 word list"
  decoded_data :: "16 word list"

definition combine_samples :: "'a combine_mem_scheme \<Rightarrow> 'a combine_mem_scheme option" where
  "combine_samples mem =
     (if length (up_sampled_vector mem) < byte_blocks_per_register
         \<or> length (decoded_data mem) < byte_blocks_per_register then None
      else
        let newValues = mm512_cvtps_epi32
              (mm512_add_ps (gather_values (up_sampled_vector mem)) (gather_values (decoded_data mem)))
        in Some (mem\<lparr>up_sampled_vector := store_values newValues (up_sampled_vector mem)\<rparr>))"

section \<open>Memory and lanes\<close>

text \<open>The store loop writes the first 16 elements and leaves the rest of the array.\<close>

lemma fold_update_upt:
  "n \<le> length st \<Longrightarrow> fold (\<lambda>x st. st[x := f x]) [0..<n] st = map f [0..<n] @ drop n st"
proof (induction n)
  case 0
  then show ?case by simp
next
  case (Suc n)
  then have n: "n < length st" by simp
  have d: "drop n st = st ! n # drop (Suc n) st"
    using n by (simp add: Cons_nth_drop_Suc)
  have "fold (\<lambda>x st. st[x := f x]) [0..<Suc n] st = (map f [0..<n] @ drop n st)[n := f n]"
    using Suc by simp
  also have "\<dots> = map f [0..<n] @ (st ! n # drop (Suc n) st)[0 := f n]"
    by (simp add: d list_update_append)
  finally show ?case by simp
qed

lemma store_values_eq:
  "16 \<le> length st \<Longrightarrow>
   store_values v st = map (\<lambda>x. ucast (v ! x)) [0..<16] @ drop 16 st"
  by (simp add: store_values_def byte_blocks_per_register_def extract_int32_from_avx512_def
      fold_update_upt)

lemma store_values_nth:
  "16 \<le> length st \<Longrightarrow> i < 16 \<Longrightarrow> store_values v st ! i = ucast (v ! i)"
  by (simp add: store_values_eq nth_append)

lemma store_values_length:
  "16 \<le> length st \<Longrightarrow> length (store_values v st) = length st"
  by (simp add: store_values_eq)

lemma store_values_drop:
  "16 \<le> length st \<Longrightarrow> drop 16 (store_values v st) = drop 16 st"
  by (simp add: store_values_eq)

lemma store_values_take:
  "16 \<le> length st \<Longrightarrow> take 16 (store_values v st) = map (\<lambda>x. ucast (v ! x)) [0..<16]"
  by (simp add: store_values_eq)

lemma lane_nth: "i < 16 \<Longrightarrow> map f lanes ! i = f i"
  by (simp add: lanes_def)

lemma gather_values_nth: "i < 16 \<Longrightarrow> gather_values vals ! i = f32_of_int (sint (vals ! i))"
  by (simp add: gather_values_def byte_blocks_per_register_def)

lemma collect_Some:
  "16 \<le> length (data_in mem) \<Longrightarrow> 16 \<le> length (data_out mem) \<Longrightarrow>
   collect_single_register mem g inc =
     Some (mem\<lparr>data_out := store_values (mm512_cvtps_epi32 (limit_passes
       (mm512_mul_ps (gather_values (data_in mem)) (ramp_gain g inc)))) (data_out mem)\<rparr>)"
  by (simp add: collect_single_register_def byte_blocks_per_register_def)

lemma combine_Some:
  "16 \<le> length (up_sampled_vector mem) \<Longrightarrow> 16 \<le> length (decoded_data mem) \<Longrightarrow>
   combine_samples mem =
     Some (mem\<lparr>up_sampled_vector := store_values (mm512_cvtps_epi32
       (mm512_add_ps (gather_values (up_sampled_vector mem)) (gather_values (decoded_data mem))))
       (up_sampled_vector mem)\<rparr>)"
  by (simp add: combine_samples_def byte_blocks_per_register_def)

section \<open>Exact conversions and sums\<close>

text \<open>
  Rounding changes nothing when the exact magnitude is an integer of at most \<open>2^24\<close>:
  such a value fits the 24 bits of a binary32 significand.
\<close>

lemma two_powi_add: "(2::real) powi (a + b) = 2 powi a * 2 powi b"
  by (simp add: power_int_add)

lemma two_powi_nat: "0 \<le> a \<Longrightarrow> (2::real) powi a = of_int (2 ^ nat a)"
  by (simp add: power_int_nonneg_exp)

lemma f32_round_exact:
  assumes M: "0 < M" and MN: "of_int M * 2 powi E = (of_int N :: real)" and N: "N \<le> 2 ^ 24"
  shows "\<exists>m e. f32_round s M E = Finite s m e \<and> 0 \<le> m \<and> of_int m * 2 powi e = (of_int N :: real)"
proof -
  define k where "k = bitlen M"
  have kb: "2 ^ nat (k - 1) \<le> M" "M < 2 ^ nat k"
    using bitlen_bounds [OF M] by (simp_all add: k_def)
  have k1: "1 \<le> k"
    using M bitlen_eq_zero_iff [of M] bitlen_nonneg [of M] by (simp add: k_def)
  have "(of_int (2 ^ nat (k - 1)) :: real) \<le> of_int M"
    using kb(1) by (simp only: of_int_le_iff)
  then have "(2::real) powi (k - 1) \<le> of_int M"
    using k1 by (simp add: two_powi_nat)
  then have "(2::real) powi (k - 1) * 2 powi E \<le> of_int M * 2 powi E"
    by (simp add: mult_right_mono)
  then have low: "(2::real) powi (k - 1 + E) \<le> of_int N"
    using MN by (simp add: two_powi_add)
  have "(of_int N :: real) \<le> of_int (2 ^ 24)"
    using N by (simp only: of_int_le_iff)
  then have up: "(of_int N :: real) \<le> 2 powi 24"
    by simp
  have ke: "k - 1 + E \<le> 24"
    using power_int_le_imp_le_exp [of "2::real" "k - 1 + E" 24] low up by simp
  define e0 where "e0 = max (E + k - 24) (- 149)"
  have e0le: "e0 \<le> 1"
    using ke by (simp add: e0_def)
  have unf: "f32_round s M E =
      (if e0 \<le> E then f32_pack s (M * 2 ^ nat (E - e0)) e0
       else let sh = nat (e0 - E); q = M div 2 ^ sh; r = M mod 2 ^ sh; half = 2 ^ (sh - 1);
                m = (if half < r \<or> (r = half \<and> odd q) then q + 1 else q)
            in if m = 2 ^ 24 then f32_pack s (2 ^ 23) (e0 + 1) else f32_pack s m e0)"
  proof -
    have "M \<noteq> 0" using M by simp
    then show ?thesis
      unfolding f32_round_def e0_def k_def by (simp only: if_False Let_def)
  qed
  show ?thesis
  proof (cases "e0 \<le> E")
    case True
    then have r: "f32_round s M E = Finite s (M * 2 ^ nat (E - e0)) e0"
      using e0le by (simp add: unf f32_pack_def)
    have "(of_int (M * 2 ^ nat (E - e0)) :: real) * 2 powi e0 = of_int M * (2 powi (E - e0) * 2 powi e0)"
      using True by (simp add: two_powi_nat)
    also have "\<dots> = of_int M * 2 powi E"
      by (simp flip: two_powi_add)
    finally have "(of_int (M * 2 ^ nat (E - e0)) :: real) * 2 powi e0 = of_int N"
      using MN by simp
    then show ?thesis using r M by auto
  next
    case False
    define sh where "sh = nat (e0 - E)"
    have sh: "int sh = e0 - E" "1 \<le> sh"
      using False by (simp_all add: sh_def)
    have Mreal: "(of_int M :: real) = of_int N * 2 powi (- E)"
    proof -
      have "(of_int N :: real) * 2 powi (- E) = of_int M * (2 powi E * 2 powi (- E))"
        using MN by simp
      then show ?thesis by (simp flip: two_powi_add)
    qed
    have "\<exists>q. M = q * 2 ^ sh"
    proof (cases "e0 \<le> 0")
      case True
      have "(of_int M :: real) = of_int N * (2 powi (- e0) * 2 powi (e0 - E))"
        unfolding Mreal by (simp flip: two_powi_add)
      also have "\<dots> = of_int (N * 2 ^ nat (- e0) * 2 ^ sh)"
        using True False by (simp add: two_powi_nat sh_def)
      finally have "M = N * 2 ^ nat (- e0) * 2 ^ sh"
        by (simp only: of_int_eq_iff)
      then show ?thesis by blast
    next
      case False
      then have e1: "e0 = 1" using e0le by simp
      then have kE: "k - 1 + E = 24" by (simp add: e0_def max_def split: if_splits)
      have "(of_int (2 ^ 24) :: real) \<le> of_int N"
        using low kE by simp
      then have "2 ^ 24 \<le> N" by (simp only: of_int_le_iff)
      then have N24: "N = 2 ^ 24" using N by simp
      have "(of_int M :: real) = 2 powi 24 * 2 powi (- E)"
        unfolding Mreal N24 by simp
      also have "\<dots> = 2 powi 23 * 2 powi (1 - E)"
      proof -
        have "24 + - E = 23 + (1 - E)" by simp
        then have "(2::real) powi (24 + - E) = 2 powi (23 + (1 - E))" by (rule arg_cong)
        then show ?thesis by (simp only: two_powi_add)
      qed
      also have "\<dots> = of_int (2 ^ 23 * 2 ^ sh)"
        using e1 \<open>\<not> e0 \<le> E\<close> by (simp add: two_powi_nat sh_def)
      finally have "M = 2 ^ 23 * 2 ^ sh"
        by (simp only: of_int_eq_iff)
      then show ?thesis by blast
    qed
    then obtain q where q: "M = q * 2 ^ sh" by blast
    have qpos: "0 < q"
      using M q by (simp add: zero_less_mult_iff)
    have dm: "M div 2 ^ sh = q" "M mod 2 ^ sh = 0"
      by (simp_all add: q)
    have half: "(0::int) < 2 ^ (sh - 1)" by simp
    have r: "f32_round s M E = (if q = 2 ^ 24 then f32_pack s (2 ^ 23) (e0 + 1) else f32_pack s q e0)"
      using False half by (simp add: unf Let_def dm flip: sh_def)
    have "(2::real) powi e0 = 2 powi (e0 - E) * 2 powi E"
      by (simp flip: two_powi_add)
    also have "(2::real) powi (e0 - E) = of_int (2 ^ sh)"
      using False by (simp add: two_powi_nat sh_def)
    finally have v1: "(2::real) powi e0 = of_int (2 ^ sh) * 2 powi E" .
    have "(of_int q :: real) * 2 powi e0 = of_int (q * 2 ^ sh) * 2 powi E"
      by (simp add: v1)
    also have "\<dots> = of_int M * 2 powi E"
      by (simp only: q)
    finally have val: "(of_int q :: real) * 2 powi e0 = of_int N"
      using MN by simp
    show ?thesis
    proof (cases "q = 2 ^ 24")
      case True
      have "(of_int (2 ^ 23) :: real) * 2 powi (e0 + 1) = of_int q * 2 powi e0"
        by (simp add: True two_powi_add)
      then show ?thesis using r True e0le val by (simp add: f32_pack_def)
    next
      case False
      then show ?thesis using r e0le val qpos by (simp add: f32_pack_def)
    qed
  qed
qed

lemma int_valued_round:
  assumes MN: "of_int M * 2 powi E = (of_int N :: real)" and M: "0 \<le> M" and N: "N \<le> 2 ^ 24"
  shows "int_valued (f32_round s M E) (if s then - N else N)"
proof (cases "M = 0")
  case True
  then have "N = 0" using MN by simp
  then show ?thesis using True by (simp add: f32_round_def)
next
  case False
  then have "0 < M" using M by simp
  from f32_round_exact [OF this MN N, of s]
  obtain m e where "f32_round s M E = Finite s m e" "0 \<le> m" "of_int m * 2 powi e = (of_int N :: real)"
    by blast
  then show ?thesis by simp
qed

lemma int_valued_of_int:
  assumes "\<bar>n\<bar> \<le> 2 ^ 24"
  shows "int_valued (f32_of_int n) n"
proof -
  have "int_valued (f32_round (n < 0) \<bar>n\<bar> 0) (if n < 0 then - \<bar>n\<bar> else \<bar>n\<bar>)"
    by (rule int_valued_round) (use assms in simp_all)
  then show ?thesis by (simp add: f32_of_int_def split: if_splits)
qed

lemma scaled_val:
  assumes "c \<le> e"
  shows "(of_int (scaled s m e c) :: real) * 2 powi c = valof (Finite s m e)"
proof -
  have "(2::real) powi e = 2 powi (e - c) * 2 powi c"
    by (simp flip: two_powi_add)
  also have "(2::real) powi (e - c) = of_int (2 ^ nat (e - c))"
    using assms by (simp add: two_powi_nat)
  finally show ?thesis by (simp add: scaled_def)
qed

lemma int_valued_add:
  assumes x: "int_valued x a" and y: "int_valued y b" and ab: "\<bar>a + b\<bar> \<le> 2 ^ 24"
  shows "int_valued (f32_add x y) (a + b)"
proof -
  obtain s m e where xf: "x = Finite s m e" using x by (cases x) simp_all
  obtain t n d where yf: "y = Finite t n d" using y by (cases y) simp_all
  define c where "c = min e d"
  define z where "z = scaled s m e c + scaled t n d c"
  have "(of_int z :: real) * 2 powi c = valof x + valof y"
    unfolding z_def xf yf
    using scaled_val [of c e s m] scaled_val [of c d t n] by (simp add: c_def algebra_simps)
  then have zv: "(of_int z :: real) * 2 powi c = of_int (a + b)"
    using x y by (simp add: xf yf)
  have pos: "(0::real) < 2 powi c" by simp
  have sgn: "z < 0 \<longleftrightarrow> a + b < 0"
  proof -
    have "((of_int z :: real) * 2 powi c < 0) = ((of_int z :: real) < 0)"
      using mult_less_cancel_right_pos [OF pos, of "of_int z" 0] by simp
    then have "((of_int (a + b) :: real) < 0) = ((of_int z :: real) < 0)"
      by (simp only: zv)
    then show ?thesis unfolding of_int_less_0_iff by simp
  qed
  have z0: "z = 0 \<longleftrightarrow> a + b = 0"
  proof -
    have "((of_int z :: real) * 2 powi c = 0) = ((of_int z :: real) = 0)"
      by simp
    then have "((of_int (a + b) :: real) = 0) = ((of_int z :: real) = 0)"
      by (simp only: zv)
    then show ?thesis unfolding of_int_eq_0_iff by simp
  qed
  have unf: "f32_add x y = (if z = 0 then Finite (s \<and> t) 0 (- 149) else f32_round (z < 0) \<bar>z\<bar> c)"
    by (simp add: xf yf Let_def c_def z_def)
  show ?thesis
  proof (cases "z = 0")
    case True
    then show ?thesis using z0 by (simp add: unf)
  next
    case False
    have "(of_int \<bar>z\<bar> :: real) * 2 powi c = \<bar>of_int z * 2 powi c\<bar>"
      by (simp add: abs_mult)
    then have "(of_int \<bar>z\<bar> :: real) * 2 powi c = of_int \<bar>a + b\<bar>"
      using zv by simp
    then have "int_valued (f32_round (z < 0) \<bar>z\<bar> c) (if z < 0 then - \<bar>a + b\<bar> else \<bar>a + b\<bar>)"
      using ab by (intro int_valued_round) simp_all
    moreover have "(if z < 0 then - \<bar>a + b\<bar> else \<bar>a + b\<bar>) = a + b"
      using sgn by simp
    ultimately show ?thesis using False by (simp add: unf)
  qed
qed

lemma rne_int_exact:
  assumes "(of_int m :: real) * 2 powi e = of_int N"
  shows "rne_int m e = N"
proof (cases "0 \<le> e")
  case True
  then have "(of_int (m * 2 ^ nat e) :: real) = of_int N"
    using assms by (simp add: two_powi_nat)
  then have "m * 2 ^ nat e = N" by (simp only: of_int_eq_iff)
  then show ?thesis using True by (simp add: rne_int_def)
next
  case False
  have "(of_int N :: real) * 2 powi (- e) = of_int m * (2 powi e * 2 powi (- e))"
    using assms by simp
  also have "\<dots> = of_int m"
    by (simp flip: two_powi_add)
  finally have "(of_int m :: real) = of_int (N * 2 ^ nat (- e))"
    using False by (simp add: two_powi_nat)
  then have m: "m = N * 2 ^ nat (- e)" by (simp only: of_int_eq_iff)
  have "(0::int) < 2 ^ (nat (- e) - 1)" by simp
  then show ?thesis using False by (simp add: rne_int_def Let_def m)
qed

lemma cvtps2dq_int_valued:
  assumes x: "int_valued x n" and lo: "- (2 ^ 31) \<le> n" and hi: "n < 2 ^ 31"
  shows "cvtps2dq x = word_of_int n"
proof -
  obtain s m e where xf: "x = Finite s m e" using x by (cases x) simp_all
  have m0: "0 \<le> m" and v: "(if s then - 1 else 1) * of_int m * 2 powi e = (of_int n :: real)"
    using x by (simp_all add: xf)
  have "(of_int m :: real) * 2 powi e = of_int (if s then - n else n)"
    using v by (simp split: if_splits)
  then have "rne_int m e = (if s then - n else n)"
    by (rule rne_int_exact)
  then show ?thesis using lo hi by (simp add: xf Let_def)
qed

lemma combine_lane_exact:
  assumes a: "\<bar>a\<bar> \<le> 2 ^ 24" and b: "\<bar>b\<bar> \<le> 2 ^ 24" and ab: "\<bar>a + b\<bar> \<le> 2 ^ 24"
  shows "cvtps2dq (f32_add (f32_of_int a) (f32_of_int b)) = word_of_int (a + b)"
proof -
  have "int_valued (f32_add (f32_of_int a) (f32_of_int b)) (a + b)"
    using a b ab by (intro int_valued_add int_valued_of_int)
  then show ?thesis using ab by (intro cvtps2dq_int_valued) simp_all
qed

section \<open>What the kernels store\<close>

lemma mm512_cvtps_epi32_map:
  "mm512_cvtps_epi32 a = map (\<lambda>i. cvtps2dq (a ! i)) [0..<16]"
  by (simp only: mm512_cvtps_epi32_def lanes_def)

lemma store_cvt:
  assumes "16 \<le> length st"
  shows "store_values (mm512_cvtps_epi32 a) st
         = map (\<lambda>i. ucast (cvtps2dq (a ! i))) [0..<16] @ drop 16 st"
proof -
  have "map (\<lambda>x. (ucast (mm512_cvtps_epi32 a ! x) :: 'a word)) [0..<16]
        = map (\<lambda>i. ucast (cvtps2dq (a ! i))) [0..<16]"
    by (rule map_cong [OF refl]) (simp add: mm512_cvtps_epi32_def lane_nth)
  then show ?thesis using assms by (simp only: store_values_eq)
qed

lemma combine_result:
  assumes "16 \<le> length (up_sampled_vector mem)" and "16 \<le> length (decoded_data mem)"
  shows "combine_samples mem = Some (mem\<lparr>up_sampled_vector :=
           map (\<lambda>i. cvtps2dq (f32_add (f32_of_int (sint (up_sampled_vector mem ! i)))
                                      (f32_of_int (sint (decoded_data mem ! i))))) [0..<16]
           @ drop 16 (up_sampled_vector mem)\<rparr>)"
proof -
  have "map (\<lambda>i. (ucast (cvtps2dq (mm512_add_ps (gather_values (up_sampled_vector mem))
                 (gather_values (decoded_data mem)) ! i)) :: 32 word)) [0..<16]
        = map (\<lambda>i. cvtps2dq (f32_add (f32_of_int (sint (up_sampled_vector mem ! i)))
                                      (f32_of_int (sint (decoded_data mem ! i))))) [0..<16]"
    by (rule map_cong [OF refl]) (simp add: mm512_add_ps_def lane_nth gather_values_nth)
  then show ?thesis
    using assms by (simp only: combine_Some store_cvt)
qed

lemma sint16_bound: "\<bar>sint (w :: 16 word)\<bar> \<le> 2 ^ 24"
  using sint_ge [of w] sint_lt [of w] by simp

lemma word_sum_eq: "(word_of_int (sint (a :: 32 word) + sint (b :: 16 word)) :: 32 word) = a + scast b"
  by simp

lemma sint_word_of_int_32:
  assumes "- (2 ^ 31) \<le> n" and "n < 2 ^ 31"
  shows "sint (word_of_int n :: 32 word) = n"
  using assms by (simp add: sint_sbintrunc' signed_take_bit_int_eq_self)


lemma map_nth_take: "n \<le> length xs \<Longrightarrow> map (\<lambda>i. xs ! i) [0..<n] = take n xs"
  by (simp add: list_eq_iff_nth_eq)

lemma combine_exact:
  assumes "16 \<le> length (up_sampled_vector mem)" and "16 \<le> length (decoded_data mem)"
    and "\<forall>i<16. \<bar>sint (up_sampled_vector mem ! i)\<bar> \<le> 2 ^ 24
           \<and> \<bar>sint (up_sampled_vector mem ! i) + sint (decoded_data mem ! i)\<bar> \<le> 2 ^ 24"
  shows "combine_samples mem = Some (mem\<lparr>up_sampled_vector :=
           map (\<lambda>i. up_sampled_vector mem ! i + scast (decoded_data mem ! i)) [0..<16]
           @ drop 16 (up_sampled_vector mem)\<rparr>)"
proof -
  have "cvtps2dq (f32_add (f32_of_int (sint (up_sampled_vector mem ! i)))
                          (f32_of_int (sint (decoded_data mem ! i))))
        = up_sampled_vector mem ! i + scast (decoded_data mem ! i)" if "i < 16" for i
  proof -
    have "\<bar>sint (up_sampled_vector mem ! i)\<bar> \<le> 2 ^ 24"
      and "\<bar>sint (up_sampled_vector mem ! i) + sint (decoded_data mem ! i)\<bar> \<le> 2 ^ 24"
      using that assms(3) by simp_all
    then show ?thesis
      by (simp only: combine_lane_exact [OF _ sint16_bound] word_sum_eq)
  qed
  then have "map (\<lambda>i. cvtps2dq (f32_add (f32_of_int (sint (up_sampled_vector mem ! i)))
                          (f32_of_int (sint (decoded_data mem ! i))))) [0..<16]
        = map (\<lambda>i. up_sampled_vector mem ! i + scast (decoded_data mem ! i)) [0..<16]"
    by (intro map_cong [OF refl]) simp
  then show ?thesis using assms(1,2) by (simp only: combine_result)
qed

lemma combine_zero_decoded:
  assumes "16 \<le> length (up_sampled_vector mem)" and "16 \<le> length (decoded_data mem)"
    and "\<forall>i<16. decoded_data mem ! i = 0 \<and> \<bar>sint (up_sampled_vector mem ! i)\<bar> \<le> 2 ^ 24"
  shows "combine_samples mem = Some mem"
proof -
  have "map (\<lambda>i. up_sampled_vector mem ! i + scast (decoded_data mem ! i)) [0..<16]
        = map (\<lambda>i. up_sampled_vector mem ! i) [0..<16]"
    using assms(3) by (intro map_cong [OF refl]) simp
  also have "\<dots> = take 16 (up_sampled_vector mem)"
    using assms(1) by (rule map_nth_take)
  finally have "map (\<lambda>i. up_sampled_vector mem ! i + scast (decoded_data mem ! i)) [0..<16]
        @ drop 16 (up_sampled_vector mem) = up_sampled_vector mem"
    by simp
  moreover have "\<forall>i<16. \<bar>sint (up_sampled_vector mem ! i)\<bar> \<le> 2 ^ 24
           \<and> \<bar>sint (up_sampled_vector mem ! i) + sint (decoded_data mem ! i)\<bar> \<le> 2 ^ 24"
    using assms(3) by simp
  ultimately show ?thesis
    using combine_exact [OF assms(1,2)] by simp
qed

lemma combine_zero_up:
  assumes "16 \<le> length (up_sampled_vector mem)" and "16 \<le> length (decoded_data mem)"
    and "\<forall>i<16. up_sampled_vector mem ! i = 0"
  shows "combine_samples mem = Some (mem\<lparr>up_sampled_vector :=
           map (\<lambda>i. scast (decoded_data mem ! i)) [0..<16] @ drop 16 (up_sampled_vector mem)\<rparr>)"
proof -
  have "map (\<lambda>i. up_sampled_vector mem ! i + scast (decoded_data mem ! i)) [0..<16]
        = map (\<lambda>i. (scast (decoded_data mem ! i) :: 32 word)) [0..<16]"
    using assms(3) by (intro map_cong [OF refl]) simp
  moreover have "\<forall>i<16. \<bar>sint (up_sampled_vector mem ! i)\<bar> \<le> 2 ^ 24
           \<and> \<bar>sint (up_sampled_vector mem ! i) + sint (decoded_data mem ! i)\<bar> \<le> 2 ^ 24"
    using assms(3) sint16_bound by simp
  ultimately show ?thesis
    using combine_exact [OF assms(1,2)] by simp
qed


lemma store_cvt_length:
  "16 \<le> length st \<Longrightarrow> length (store_values (mm512_cvtps_epi32 a) st) = length st"
  by (simp add: store_cvt)

lemma sint_scast_16_32: "sint (scast (w :: 16 word) :: 32 word) = sint w"
proof -
  have "- (2 ^ 31) \<le> sint w" and "sint w < 2 ^ 31"
    using sint_ge [of w] sint_lt [of w] by simp_all
  then have "sint (word_of_int (sint w) :: 32 word) = sint w"
    by (rule sint_word_of_int_32)
  then show ?thesis by simp
qed


section \<open>The masked passes and the gain ramp\<close>

lemma f32_of_int_0: "f32_of_int 0 = Finite False 0 (- 149)"
  by code_simp

lemma f32_of_int_lower: "f32_of_int (- 32768) = Finite True 8388608 (- 8)"
  by code_simp

lemma f32_of_int_upper: "f32_of_int 32767 = Finite False 16776704 (- 9)"
  by code_simp

lemma scaled_nonneg: "0 \<le> scaled s m e c \<longleftrightarrow> 0 \<le> (if s then - m else m)"
  by (simp add: scaled_def zero_le_mult_iff)

lemma scaled_neg: "scaled s m e c < 0 \<longleftrightarrow> (if s then - m else m) < 0"
  by (simp add: scaled_def mult_less_0_iff)

lemma scaled_zero: "scaled s 0 e c = 0"
  by (simp add: scaled_def)

lemma limit_lane_passes:
  "(let ge = f32_le (f32_of_int 0) p;
        y = (if ge then maxps p (f32_of_int (- 32768)) else p)
    in if \<not> ge then minps y (f32_of_int 32767) else y) = limit_lane p"
proof (cases p)
  case (Finite s m e)
  have lo: "scaled True 8388608 (- 8) c < 0" for c
    by (simp add: scaled_neg)
  have up: "0 < scaled False 16776704 (- 9) c" for c
    using scaled_neg [of True 16776704 "- 9" c] by (simp add: scaled_def)
  show ?thesis
  proof (cases "0 \<le> scaled s m e (min (- 149) e)")
    case True
    then have "0 \<le> scaled s m e c" for c
      by (simp add: scaled_nonneg)
    then have "scaled True 8388608 (- 8) c < scaled s m e c" for c
      using lo [of c] by (rule less_le_trans [rotated])
    then show ?thesis using True
      by (simp add: Finite f32_of_int_0 f32_of_int_lower f32_of_int_upper limit_lane_def maxps_def
          scaled_zero Let_def)
  next
    case False
    then have "scaled s m e c < 0" for c
      by (simp add: scaled_nonneg scaled_neg not_le)
    then have "scaled s m e c < scaled False 16776704 (- 9) c" for c
      using up [of c] by (rule less_trans)
    then show ?thesis using False
      by (simp add: Finite f32_of_int_0 f32_of_int_lower f32_of_int_upper limit_lane_def minps_def
          scaled_zero Let_def)
  qed
next
  case (Infinity s)
  then show ?thesis
    by (simp add: f32_of_int_0 f32_of_int_lower f32_of_int_upper limit_lane_def maxps_def minps_def)
next
  case NaN
  then show ?thesis
    by (simp add: f32_of_int_0 f32_of_int_lower f32_of_int_upper limit_lane_def minps_def)
qed

lemma limit_passes_nth:
  assumes "i < 16"
  shows "limit_passes X ! i = limit_lane (X ! i)"
proof -
  have "limit_passes X ! i =
    (let ge = f32_le (f32_of_int 0) (X ! i);
         y = (if ge then maxps (X ! i) (f32_of_int (- 32768)) else X ! i)
     in if \<not> ge then minps y (f32_of_int 32767) else y)"
    using assms
    by (simp add: limit_passes_def Let_def mm512_mask_min_ps_def mm512_mask_max_ps_def
        mm512_cmp_ps_mask_ge_oq_def mask_not_def mm512_set1_ps_def lane_nth)
  then show ?thesis by (simp only: limit_lane_passes)
qed

lemma ramp_args:
  "[0, 1, 2, 3, 4, 5, 6, 7, 8, 9, 10, 11, 12, 13, 14, 15] = map int [0..<16]"
  by code_simp

lemma ramp_gain_nth:
  assumes "i < 16"
  shows "ramp_gain current_gain increment ! i
         = f32_add current_gain (f32_mul increment (f32_of_int (15 - int i)))"
proof -
  have "int (15 - i) = 15 - int i"
    using assms by simp
  then have "map f32_of_int (map int [0..<16]) ! (15 - i) = f32_of_int (15 - int i)"
    using assms by simp
  then show ?thesis using assms
    by (simp only: ramp_gain_def ramp_args mm512_add_ps_def mm512_mul_ps_def mm512_set1_ps_def
        mm512_set_ps_def lane_nth)
qed

lemma product_nth:
  assumes "i < 16"
  shows "mm512_mul_ps (gather_values vals) (ramp_gain current_gain increment) ! i
         = f32_mul (f32_of_int (sint (vals ! i)))
             (f32_add current_gain (f32_mul increment (f32_of_int (15 - int i))))"
  using assms by (simp add: mm512_mul_ps_def lane_nth gather_values_nth ramp_gain_nth)

lemma collect_result:
  assumes "16 \<le> length (data_in mem)" and "16 \<le> length (data_out mem)"
  shows "collect_single_register mem current_gain increment = Some (mem\<lparr>data_out :=
           map (\<lambda>i. ucast (cvtps2dq (limit_lane (f32_mul (f32_of_int (sint (data_in mem ! i)))
                  (f32_add current_gain (f32_mul increment (f32_of_int (15 - int i))))))))
             [0..<16]
           @ drop 16 (data_out mem)\<rparr>)"
proof -
  have "map (\<lambda>i. (ucast (cvtps2dq (limit_passes (mm512_mul_ps (gather_values (data_in mem))
                 (ramp_gain current_gain increment)) ! i)) :: 16 word)) [0..<16]
        = map (\<lambda>i. ucast (cvtps2dq (limit_lane (f32_mul (f32_of_int (sint (data_in mem ! i)))
                  (f32_add current_gain (f32_mul increment (f32_of_int (15 - int i))))))))
             [0..<16]"
    by (rule map_cong [OF refl]) (simp add: limit_passes_nth product_nth)
  then show ?thesis
    using assms by (simp only: collect_Some store_cvt)
qed

lemma collect_lane:
  assumes "16 \<le> length (data_in mem)" and "16 \<le> length (data_out mem)" and "i < 16"
  shows "\<exists>mem'. collect_single_register mem current_gain increment = Some mem'
           \<and> data_out mem' ! i
               = ucast (cvtps2dq (limit_lane (f32_mul (f32_of_int (sint (data_in mem ! i)))
                  (f32_add current_gain (f32_mul increment (f32_of_int (15 - int i)))))))"
  using assms by (simp add: collect_result nth_append)

lemma sint_ucast_32_16:
  "sint (ucast (w :: 32 word) :: 16 word) = (sint w + 32768) mod 65536 - 32768"
proof -
  have d: "is_down (ucast :: 32 word \<Rightarrow> 16 word)"
    by (simp add: is_down)
  have "sint (ucast w :: 16 word) = sint (word_of_int (sint w) :: 16 word)"
    by (simp only: fun_cong [OF down_cast_same [OF d]] scast_eq)
  also have "\<dots> = (sint w + 32768) mod 65536 - 32768"
    by (subst int_word_sint) simp
  finally show ?thesis .
qed

section \<open>Frames of the two kernels\<close>

lemma take_eq_nth: "take n xs = take n ys \<Longrightarrow> i < n \<Longrightarrow> xs ! i = ys ! i"
  by (metis nth_take)

lemma collect_frame:
  assumes "16 \<le> length (data_in mem)" and "16 \<le> length (data_out mem)"
  shows "\<exists>mem'. collect_single_register mem current_gain increment = Some mem'
           \<and> data_in mem' = data_in mem \<and> collect_mem.more mem' = collect_mem.more mem
           \<and> length (data_out mem') = length (data_out mem)
           \<and> drop 16 (data_out mem') = drop 16 (data_out mem)
           \<and> take 16 (data_out mem')
               = map (\<lambda>i. ucast (cvtps2dq (limit_lane (f32_mul (f32_of_int (sint (data_in mem ! i)))
                  (f32_add current_gain (f32_mul increment (f32_of_int (15 - int i))))))))
                 [0..<16]"
  using assms by (simp add: collect_result [OF assms])

lemma combine_frame:
  assumes "16 \<le> length (up_sampled_vector mem)" and "16 \<le> length (decoded_data mem)"
  shows "\<exists>mem'. combine_samples mem = Some mem'
           \<and> decoded_data mem' = decoded_data mem \<and> combine_mem.more mem' = combine_mem.more mem
           \<and> length (up_sampled_vector mem') = length (up_sampled_vector mem)
           \<and> drop 16 (up_sampled_vector mem') = drop 16 (up_sampled_vector mem)
           \<and> take 16 (up_sampled_vector mem')
               = map (\<lambda>i. cvtps2dq (f32_add (f32_of_int (sint (up_sampled_vector mem ! i)))
                                      (f32_of_int (sint (decoded_data mem ! i))))) [0..<16]"
  using assms by (simp add: combine_result [OF assms])

section \<open>Rounding to the nearest integer\<close>

lemma rne_int_nearest:
  assumes m0: "0 \<le> m"
  shows "\<bar>of_int m * 2 powi e - (of_int (rne_int m e) :: real)\<bar> \<le> 1 / 2
         \<and> (\<bar>of_int m * 2 powi e - (of_int (rne_int m e) :: real)\<bar> = 1 / 2 \<longrightarrow> even (rne_int m e))"
proof (cases "0 \<le> e")
  case True
  then have "(of_int (rne_int m e) :: real) = of_int m * 2 powi e"
    by (simp add: rne_int_def two_powi_nat)
  then show ?thesis by simp
next
  case False
  define sh where "sh = nat (- e)"
  define D :: int where "D = 2 ^ sh"
  define H :: int where "H = 2 ^ (sh - 1)"
  define q where "q = m div D"
  define r where "r = m mod D"
  have sh1: "sh = Suc (sh - 1)" using False by (simp add: sh_def)
  have D2: "D = 2 * H"
    unfolding D_def H_def by (subst sh1) simp
  have Hpos: "0 < H" by (simp add: H_def)
  have Dpos: "0 < D" by (simp add: D_def)
  have mqr: "m = q * D + r" by (simp add: q_def r_def)
  have r0: "0 \<le> r" and rD: "r < D"
    using Dpos by (simp_all add: r_def)
  have hr: "(0::real) < of_int H" using Hpos by simp
  have pe: "(2::real) powi e = 1 / (2 * of_int H)"
  proof -
    have "e = - int sh" using False by (simp add: sh_def)
    then have "(2::real) powi e = inverse (of_int D)"
      by (simp add: power_int_minus D_def)
    then show ?thesis by (simp add: D2 inverse_eq_divide)
  qed
  have "(of_int m :: real) = of_int q * (2 * of_int H) + of_int r"
    by (simp add: mqr D2)
  then have "(of_int m :: real) * 2 powi e
      = (of_int q * (2 * of_int H) + of_int r) / (2 * of_int H)"
    by (simp add: pe)
  also have "\<dots> = of_int q + of_int r / (2 * of_int H)"
    using hr by (simp add: add_divide_distrib)
  finally have v: "(of_int m :: real) * 2 powi e = of_int q + of_int r / (2 * of_int H)" .
  have unf: "rne_int m e = (if H < r \<or> (r = H \<and> odd q) then q + 1 else q)"
    using False by (simp add: rne_int_def Let_def q_def r_def D_def H_def sh_def)
  consider "H < r" | "r = H" "odd q" | "r = H" "even q" | "r < H"
    by fastforce
  then show ?thesis
  proof cases
    case 1
    then have "(of_int H :: real) < of_int r" by simp
    moreover have "(of_int r :: real) < 2 * of_int H"
      using rD D2 by (metis of_int_less_iff of_int_mult of_int_numeral)
    ultimately have "1 / 2 < (of_int r :: real) / (2 * of_int H)" "(of_int r :: real) / (2 * of_int H) < 1"
      using hr by (simp_all add: field_simps)
    then show ?thesis using 1 by (simp add: unf v abs_if)
  next
    case 2
    then have "(of_int r :: real) / (2 * of_int H) = 1 / 2"
      using hr by simp
    then show ?thesis using 2 by (simp add: unf v)
  next
    case 3
    then have "(of_int r :: real) / (2 * of_int H) = 1 / 2"
      using hr by simp
    then show ?thesis using 3 by (simp add: unf v)
  next
    case 4
    then have "(of_int r :: real) < of_int H" by simp
    moreover have "(0::real) \<le> of_int r" using r0 by simp
    ultimately have "(of_int r :: real) / (2 * of_int H) < 1 / 2" "0 \<le> (of_int r :: real) / (2 * of_int H)"
      using hr by (simp_all add: field_simps)
    then show ?thesis using 4 by (simp add: unf v abs_if)
  qed
qed

lemma cvtps2dq_nearest:
  assumes val: "f32_valid x" and fin: "is_finite x"
    and lo: "- (2 ^ 31) \<le> valof x" and hi: "valof x \<le> 2 ^ 31 - 1"
  shows "\<bar>valof x - of_int (sint (cvtps2dq x))\<bar> \<le> 1 / 2
         \<and> (\<bar>valof x - of_int (sint (cvtps2dq x))\<bar> = 1 / 2 \<longrightarrow> even (sint (cvtps2dq x)))"
proof -
  obtain s m e where xf: "x = Finite s m e" using fin by (cases x) simp_all
  have m0: "0 \<le> m" using val by (simp add: xf)
  define R where "R = rne_int m e"
  define v :: real where "v = of_int m * 2 powi e"
  have a: "\<bar>v - of_int R\<bar> \<le> 1 / 2" and b: "\<bar>v - of_int R\<bar> = 1 / 2 \<longrightarrow> even R"
    using rne_int_nearest [OF m0, of e] by (simp_all add: R_def v_def)
  have v0: "0 \<le> v" using m0 by (simp add: v_def)
  have "(- 1 :: real) < of_int R"
    using a v0 by linarith
  then have "(of_int (- 1) :: real) < of_int R"
    by simp
  then have "- 1 < R" by (simp only: of_int_less_iff)
  then have R0: "0 \<le> R" by simp
  define n where "n = (if s then - R else R)"
  have xv: "valof x = (if s then - v else v)"
    by (simp add: xf v_def)
  have rng: "- (2 ^ 31) \<le> n \<and> n < 2 ^ 31"
  proof (cases s)
    case True
    then have "v \<le> 2 ^ 31" using lo xv by simp
    then have "(of_int R :: real) < 2 ^ 31 + 1"
      using a by linarith
    then have "(of_int R :: real) < of_int (2 ^ 31 + 1)"
      by simp
    then have "R < 2 ^ 31 + 1" by (simp only: of_int_less_iff)
    then show ?thesis using True R0 by (simp add: n_def)
  next
    case False
    then have "v \<le> 2 ^ 31 - 1" using hi xv by simp
    then have "(of_int R :: real) < 2 ^ 31"
      using a by linarith
    then have "(of_int R :: real) < of_int (2 ^ 31)"
      by simp
    then have "R < 2 ^ 31" by (simp only: of_int_less_iff)
    then show ?thesis using False R0 by (simp add: n_def)
  qed
  have "cvtps2dq x = word_of_int n"
    using rng unfolding n_def R_def by (auto simp add: xf Let_def)
  then have sn: "sint (cvtps2dq x) = n"
    using rng by (simp only: sint_word_of_int_32)
  have "\<bar>valof x - of_int n\<bar> = \<bar>v - of_int R\<bar>"
    by (simp add: xv n_def abs_minus_commute)
  moreover have "even n \<longleftrightarrow> even R"
    by (simp add: n_def)
  ultimately show ?thesis
    using a b by (simp only: sn)
qed

lemma collect_lane_raw:
  assumes "16 \<le> length (data_in mem)" and "16 \<le> length (data_out mem)" and "i < 16"
  shows "\<exists>mem'. collect_single_register mem current_gain increment = Some mem'
           \<and> data_out mem' ! i = ucast (cvtps2dq (limit_passes (mm512_mul_ps
                 (gather_values (data_in mem)) (ramp_gain current_gain increment)) ! i))"
  using assms by (simp add: collect_Some store_cvt nth_append)

lemma combine_lane_raw:
  assumes "16 \<le> length (up_sampled_vector mem)" and "16 \<le> length (decoded_data mem)"
    and "i < 16"
  shows "\<exists>mem'. combine_samples mem = Some mem'
           \<and> up_sampled_vector mem' ! i = cvtps2dq (mm512_add_ps
                 (gather_values (up_sampled_vector mem)) (gather_values (decoded_data mem)) ! i)"
  using assms by (simp add: combine_Some store_cvt nth_append)

section \<open>The operations stay within binary32\<close>

text \<open>
  Rounding always yields a value of the format: a significand below \<open>2^24\<close> that is
  normalised unless the exponent is the smallest one, or an infinity. So every lane the
  kernels compute from well-formed arguments is well-formed.
\<close>

lemma int_div_less:
  assumes "0 < D" and "M < a * D"
  shows "M div D < (a::int)"
proof -
  have "M div D * D + M mod D = M" by simp
  moreover have "0 \<le> M mod D" using assms(1) by simp
  ultimately have "M div D * D \<le> M" by linarith
  then have "M div D * D < a * D" using assms(2) by simp
  then show ?thesis using assms(1) by (simp add: mult_less_cancel_right)
qed

lemma int_div_ge:
  assumes "0 < D" and "b * D \<le> M"
  shows "(b::int) \<le> M div D"
proof -
  have "(b * D) div D \<le> M div D"
    using assms by (intro zdiv_mono1)
  then show ?thesis using assms(1) by simp
qed

lemma f32_pack_valid:
  assumes "0 \<le> m" and "m < 2 ^ 24" and "- 149 \<le> e" and "2 ^ 23 \<le> m \<or> e = - 149"
  shows "f32_valid (f32_pack s m e)"
  using assms by (auto simp add: f32_pack_def)

lemma f32_round_valid:
  assumes M: "0 \<le> M"
  shows "f32_valid (f32_round s M E)"
proof (cases "M = 0")
  case True
  then show ?thesis by (simp add: f32_round_def)
next
  case False
  then have Mpos: "0 < M" using M by simp
  define k where "k = bitlen M"
  have kb: "2 ^ nat (k - 1) \<le> M" "M < 2 ^ nat k"
    using bitlen_bounds [OF Mpos] by (simp_all add: k_def)
  have k1: "1 \<le> k"
    using Mpos bitlen_eq_zero_iff [of M] bitlen_nonneg [of M] by (simp add: k_def)
  define e0 where "e0 = max (E + k - 24) (- 149)"
  have e0lo: "- 149 \<le> e0" and e0ge: "E + k - 24 \<le> e0"
    by (simp_all add: e0_def)
  have unf: "f32_round s M E =
      (if e0 \<le> E then f32_pack s (M * 2 ^ nat (E - e0)) e0
       else let sh = nat (e0 - E); q = M div 2 ^ sh; r = M mod 2 ^ sh; half = 2 ^ (sh - 1);
                m = (if half < r \<or> (r = half \<and> odd q) then q + 1 else q)
            in if m = 2 ^ 24 then f32_pack s (2 ^ 23) (e0 + 1) else f32_pack s m e0)"
    using False unfolding f32_round_def e0_def k_def by (simp only: if_False Let_def)
  show ?thesis
  proof (cases "e0 \<le> E")
    case True
    define j where "j = nat (E - e0)"
    have "M * 2 ^ j < 2 ^ nat k * 2 ^ j"
      using kb(2) by simp
    also have "\<dots> = 2 ^ (nat k + j)"
      by (simp add: power_add)
    also have "\<dots> \<le> (2::int) ^ 24"
      using e0ge True k1 by (intro power_increasing) (simp_all add: j_def)
    finally have up: "M * 2 ^ j < 2 ^ 24" .
    have lo: "2 ^ 23 \<le> M * 2 ^ j \<or> e0 = - 149"
    proof (cases "e0 = - 149")
      case True
      then show ?thesis by simp
    next
      case False
      then have e0eq: "e0 = E + k - 24" by (simp add: e0_def max_def split: if_splits)
      have "nat (k - 1) + j = 23"
        using k1 True e0eq by (simp add: j_def)
      then have "(2::int) ^ 23 = 2 ^ (nat (k - 1) + j)"
        by simp
      also have "\<dots> = 2 ^ nat (k - 1) * 2 ^ j"
        by (simp add: power_add)
      also have "\<dots> \<le> M * 2 ^ j"
        using kb(1) by simp
      finally show ?thesis by simp
    qed
    have "f32_valid (f32_pack s (M * 2 ^ j) e0)"
      using M up lo e0lo by (intro f32_pack_valid) simp_all
    then show ?thesis using True by (simp add: unf j_def)
  next
    case False
    define sh where "sh = nat (e0 - E)"
    define q where "q = M div 2 ^ sh"
    define m where "m = (if 2 ^ (sh - 1) < M mod 2 ^ sh \<or> (M mod 2 ^ sh = 2 ^ (sh - 1) \<and> odd q)
                         then q + 1 else q)"
    have r: "f32_round s M E = (if m = 2 ^ 24 then f32_pack s (2 ^ 23) (e0 + 1) else f32_pack s m e0)"
      using False by (simp add: unf Let_def m_def q_def sh_def)
    have q0: "0 \<le> q"
      using M by (simp add: q_def pos_imp_zdiv_nonneg_iff)
    have m0: "0 \<le> m" and mq: "m \<le> q + 1" "q \<le> m"
      using q0 by (simp_all add: m_def)
    have Dpos: "(0::int) < 2 ^ sh" by simp
    have qup: "q < 2 ^ 24 \<and> (e0 \<noteq> E + k - 24 \<longrightarrow> q < 2 ^ 23)"
    proof -
      have "M < 2 ^ 24 * 2 ^ sh"
      proof -
        have "M < 2 ^ nat k" by (rule kb(2))
        also have "\<dots> \<le> (2::int) ^ (24 + sh)"
          using e0ge False by (intro power_increasing) (simp_all add: sh_def)
        finally show ?thesis by (simp add: power_add)
      qed
      then have a: "q < 2 ^ 24"
        unfolding q_def by (intro int_div_less Dpos)
      have b: "q < 2 ^ 23" if "e0 \<noteq> E + k - 24"
      proof -
        have "E + k - 24 < e0" using that e0ge by simp
        have "M < 2 ^ nat k" by (rule kb(2))
        also have "\<dots> \<le> (2::int) ^ (23 + sh)"
          using \<open>E + k - 24 < e0\<close> False by (intro power_increasing) (simp_all add: sh_def)
        finally have "M < 2 ^ 23 * 2 ^ sh" by (simp add: power_add)
        then show ?thesis unfolding q_def by (intro int_div_less Dpos)
      qed
      show ?thesis using a b by blast
    qed
    have qlo: "2 ^ 23 \<le> q \<or> e0 = - 149"
    proof (cases "e0 = - 149")
      case True
      then show ?thesis by simp
    next
      case neq: False
      then have e0eq: "e0 = E + k - 24" by (simp add: e0_def max_def split: if_splits)
      have "(2::int) ^ 23 * 2 ^ sh = 2 ^ (23 + sh)"
        by (simp add: power_add)
      also have "\<dots> = 2 ^ nat (k - 1)"
      proof -
        have "23 + sh = nat (k - 1)"
          using e0eq False k1 by (simp add: sh_def)
        then show ?thesis by simp
      qed
      also have "\<dots> \<le> M" by (rule kb(1))
      finally have "2 ^ 23 \<le> q"
        unfolding q_def by (intro int_div_ge Dpos)
      then show ?thesis by simp
    qed
    show ?thesis
    proof (cases "m = 2 ^ 24")
      case True
      have "f32_valid (f32_pack s (2 ^ 23) (e0 + 1))"
        using e0lo by (intro f32_pack_valid) simp_all
      then show ?thesis using True by (simp add: r)
    next
      case neq: False
      have "m < 2 ^ 24" using mq(1) qup neq by simp
      moreover have "2 ^ 23 \<le> m \<or> e0 = - 149" using qlo mq(2) by auto
      ultimately have "f32_valid (f32_pack s m e0)"
        using m0 e0lo by (intro f32_pack_valid) simp_all
      then show ?thesis using neq by (simp add: r)
    qed
  qed
qed

lemma f32_of_int_valid: "f32_valid (f32_of_int n)"
  by (simp add: f32_of_int_def f32_round_valid)

lemma f32_mul_valid:
  assumes "f32_valid x" and "f32_valid y"
  shows "f32_valid (f32_mul x y)"
proof (cases x)
  case xf: (Finite s m e)
  show ?thesis
  proof (cases y)
    case (Finite t n d)
    then have "0 \<le> m * n" using assms xf by simp
    then show ?thesis by (simp add: xf Finite f32_round_valid)
  qed (simp_all add: xf)
next
  case xi: (Infinity s)
  show ?thesis by (cases y) (simp_all add: xi)
next
  case NaN
  then show ?thesis by simp
qed

lemma f32_add_valid: "f32_valid (f32_add x y)"
proof (cases x)
  case xf: (Finite s m e)
  show ?thesis
    by (cases y) (simp_all add: xf Let_def f32_round_valid)
next
  case xi: (Infinity s)
  show ?thesis by (cases y) (simp_all add: xi)
next
  case NaN
  then show ?thesis by simp
qed

lemma limit_lane_valid: "f32_valid p \<Longrightarrow> f32_valid (limit_lane p)"
  by (simp add: limit_lane_def f32_of_int_valid)

lemma collect_lane_valid:
  assumes "i < 16" and "f32_valid current_gain" and "f32_valid increment"
  shows "f32_valid (limit_passes (mm512_mul_ps (gather_values vals)
           (ramp_gain current_gain increment)) ! i)"
  using assms
  by (simp add: limit_passes_nth product_nth limit_lane_valid f32_mul_valid f32_add_valid
      f32_of_int_valid)

lemma combine_lane_valid:
  assumes "i < 16"
  shows "f32_valid (mm512_add_ps (gather_values a) (gather_values b) ! i)"
  using assms by (simp add: mm512_add_ps_def lane_nth f32_add_valid)

section \<open>Integers that binary32 holds\<close>

text \<open>
  Rounding changes nothing whenever the exact value is one binary32 holds, whatever its
  size; the sums and conversions of such integers are exact.
\<close>

lemma f32_round_exact_gen:
  assumes M: "0 < M"
    and MN: "of_int M * 2 powi E = (of_int m' :: real) * 2 powi e'"
    and m': "m' < 2 ^ 24" and e'lo: "- 149 \<le> e'" and e'hi: "e' \<le> 104"
  shows "\<exists>m e. f32_round s M E = Finite s m e \<and> 0 \<le> m
           \<and> of_int m * 2 powi e = (of_int M :: real) * 2 powi E"
proof -
  define k where "k = bitlen M"
  have kb: "2 ^ nat (k - 1) \<le> M" "M < 2 ^ nat k"
    using bitlen_bounds [OF M] by (simp_all add: k_def)
  have k1: "1 \<le> k"
    using M bitlen_eq_zero_iff [of M] bitlen_nonneg [of M] by (simp add: k_def)
  have "(of_int (2 ^ nat (k - 1)) :: real) \<le> of_int M"
    using kb(1) by (simp only: of_int_le_iff)
  then have "(2::real) powi (k - 1) \<le> of_int M"
    using k1 by (simp add: two_powi_nat)
  then have "(2::real) powi (k - 1) * 2 powi E \<le> of_int M * 2 powi E"
    by (simp add: mult_right_mono)
  then have low: "(2::real) powi (k - 1 + E) \<le> of_int m' * 2 powi e'"
    using MN by (simp add: two_powi_add)
  have "(of_int m' :: real) < of_int (2 ^ 24)"
    using m' by (simp only: of_int_less_iff)
  then have "(of_int m' :: real) * 2 powi e' < 2 powi 24 * 2 powi e'"
    by (simp add: mult_strict_right_mono)
  then have up: "(of_int m' :: real) * 2 powi e' < 2 powi (24 + e')"
    by (simp only: two_powi_add)
  have ke: "k - 1 + E < 24 + e'"
  proof (rule ccontr)
    assume "\<not> k - 1 + E < 24 + e'"
    then have "24 + e' \<le> k - 1 + E" by simp
    then have "(2::real) powi (24 + e') \<le> 2 powi (k - 1 + E)"
      by (intro power_int_increasing) simp_all
    then show False using low up by linarith
  qed
  define e0 where "e0 = max (E + k - 24) (- 149)"
  have e0le: "e0 \<le> e'"
    using ke e'lo by (simp add: e0_def)
  have e0hi: "e0 \<le> 104"
    using e0le e'hi by simp
  have unf: "f32_round s M E =
      (if e0 \<le> E then f32_pack s (M * 2 ^ nat (E - e0)) e0
       else let sh = nat (e0 - E); q = M div 2 ^ sh; r = M mod 2 ^ sh; half = 2 ^ (sh - 1);
                m = (if half < r \<or> (r = half \<and> odd q) then q + 1 else q)
            in if m = 2 ^ 24 then f32_pack s (2 ^ 23) (e0 + 1) else f32_pack s m e0)"
  proof -
    have "M \<noteq> 0" using M by simp
    then show ?thesis
      unfolding f32_round_def e0_def k_def by (simp only: if_False Let_def)
  qed
  show ?thesis
  proof (cases "e0 \<le> E")
    case True
    then have r: "f32_round s M E = Finite s (M * 2 ^ nat (E - e0)) e0"
      using e0hi by (simp add: unf f32_pack_def)
    have "(of_int (M * 2 ^ nat (E - e0)) :: real) * 2 powi e0 = of_int M * (2 powi (E - e0) * 2 powi e0)"
      using True by (simp add: two_powi_nat)
    also have "\<dots> = of_int M * 2 powi E"
      by (simp flip: two_powi_add)
    finally show ?thesis using r M by auto
  next
    case False
    define sh where "sh = nat (e0 - E)"
    define j where "j = nat (e' - e0)"
    have "(of_int M :: real) = of_int M * (2 powi E * 2 powi (- E))"
      by (simp flip: two_powi_add)
    also have "\<dots> = of_int m' * (2 powi e' * 2 powi (- E))"
      using MN by simp
    also have "\<dots> = of_int m' * (2 powi (e' - e0) * 2 powi (e0 - E))"
    proof -
      have "e' + - E = (e' - e0) + (e0 - E)" by simp
      then have "(2::real) powi (e' + - E) = 2 powi ((e' - e0) + (e0 - E))" by (rule arg_cong)
      then show ?thesis by (simp only: two_powi_add)
    qed
    also have "\<dots> = of_int (m' * 2 ^ j * 2 ^ sh)"
      using False e0le by (simp add: two_powi_nat sh_def j_def)
    finally have Mq: "M = m' * 2 ^ j * 2 ^ sh"
      by (simp only: of_int_eq_iff)
    define q where "q = m' * 2 ^ j"
    have q: "M = q * 2 ^ sh" by (simp add: Mq q_def)
    have qpos: "0 < q"
      using M q by (simp add: zero_less_mult_iff)
    have dm: "M div 2 ^ sh = q" "M mod 2 ^ sh = 0"
      by (simp_all add: q)
    have half: "(0::int) < 2 ^ (sh - 1)" by simp
    have r: "f32_round s M E = (if q = 2 ^ 24 then f32_pack s (2 ^ 23) (e0 + 1) else f32_pack s q e0)"
      using False half by (simp add: unf Let_def dm flip: sh_def)
    have "(2::real) powi e0 = 2 powi (e0 - E) * 2 powi E"
      by (simp flip: two_powi_add)
    also have "(2::real) powi (e0 - E) = of_int (2 ^ sh)"
      using False by (simp add: two_powi_nat sh_def)
    finally have v1: "(2::real) powi e0 = of_int (2 ^ sh) * 2 powi E" .
    have "(of_int q :: real) * 2 powi e0 = of_int (q * 2 ^ sh) * 2 powi E"
      by (simp add: v1)
    also have "\<dots> = of_int M * 2 powi E"
      by (simp only: q)
    finally have val: "(of_int q :: real) * 2 powi e0 = of_int M * 2 powi E" .
    show ?thesis
    proof (cases "q = 2 ^ 24")
      case True
      have "j \<noteq> 0"
      proof
        assume "j = 0"
        then have "q = m'" by (simp add: q_def)
        then show False using True m' by simp
      qed
      then have "e0 + 1 \<le> 104"
        using e'hi by (simp add: j_def)
      moreover have "(of_int (2 ^ 23) :: real) * 2 powi (e0 + 1) = of_int q * 2 powi e0"
        by (simp add: True two_powi_add)
      ultimately show ?thesis using r True val by (simp add: f32_pack_def)
    next
      case False
      then show ?thesis using r e0hi val qpos by (simp add: f32_pack_def)
    qed
  qed
qed

lemma f32_holds_repr:
  assumes h: "f32_holds n" and b: "\<bar>n\<bar> < 2 ^ 128"
  shows "\<exists>m' e'. m' < 2 ^ 24 \<and> - 149 \<le> e' \<and> e' \<le> 104
           \<and> (of_int \<bar>n\<bar> :: real) = of_int m' * 2 powi e'"
proof -
  define a where "a = \<bar>n\<bar>"
  define t where "t = nat (bitlen a - 24)"
  define m' where "m' = a div 2 ^ t"
  have a0: "0 \<le> a" by (simp add: a_def)
  have "a mod 2 ^ t = 0" using h by (simp add: f32_holds_def a_def t_def)
  then have am: "a = m' * 2 ^ t"
    by (simp add: m'_def mod_eq_0_iff_dvd)
  have bl: "bitlen a \<le> 128"
    using b by (simp add: bitlen_le_iff_power a_def)
  have "a < 2 ^ nat (bitlen a)"
  proof (cases "a = 0")
    case True
    then show ?thesis by simp
  next
    case False
    then have "0 < a" using a0 by simp
    then show ?thesis using bitlen_bounds [of a] by simp
  qed
  also have "\<dots> \<le> (2::int) ^ (24 + t)"
    by (intro power_increasing) (simp_all add: t_def)
  finally have "a < 2 ^ 24 * 2 ^ t" by (simp add: power_add)
  then have m'b: "m' < 2 ^ 24"
    unfolding m'_def by (intro int_div_less) simp_all
  have tb: "int t \<le> 104" using bl by (simp add: t_def)
  have "(of_int a :: real) = of_int m' * 2 powi (int t)"
    by (simp add: am)
  then show ?thesis using m'b tb unfolding a_def by (intro exI [of _ m'] exI [of _ "int t"]) simp
qed

lemma int_valued_round_gen:
  assumes MN: "of_int M * 2 powi E = (of_int N :: real)" and M: "0 \<le> M"
    and rep: "\<exists>m' e'. m' < 2 ^ 24 \<and> - 149 \<le> e' \<and> e' \<le> 104
                \<and> (of_int N :: real) = of_int m' * 2 powi e'"
  shows "int_valued (f32_round s M E) (if s then - N else N)"
proof (cases "M = 0")
  case True
  then have "N = 0" using MN by simp
  then show ?thesis using True by (simp add: f32_round_def)
next
  case False
  then have Mpos: "0 < M" using M by simp
  obtain m' e' where r: "m' < 2 ^ 24" "- 149 \<le> e'" "e' \<le> 104"
    "(of_int N :: real) = of_int m' * 2 powi e'"
    using rep by blast
  have "of_int M * 2 powi E = (of_int m' :: real) * 2 powi e'"
    using MN r(4) by simp
  from f32_round_exact_gen [OF Mpos this r(1,2,3), of s]
  obtain m e where "f32_round s M E = Finite s m e" "0 \<le> m"
    "of_int m * 2 powi e = (of_int M :: real) * 2 powi E"
    by blast
  then show ?thesis using MN by simp
qed

lemma int_valued_of_int_gen:
  assumes "f32_holds n" and "\<bar>n\<bar> < 2 ^ 128"
  shows "int_valued (f32_of_int n) n"
proof -
  have "int_valued (f32_round (n < 0) \<bar>n\<bar> 0) (if n < 0 then - \<bar>n\<bar> else \<bar>n\<bar>)"
    using f32_holds_repr [OF assms] by (intro int_valued_round_gen) simp_all
  then show ?thesis by (simp add: f32_of_int_def split: if_splits)
qed

lemma f32_holds_abs: "f32_holds \<bar>n\<bar> = f32_holds n"
  by (simp add: f32_holds_def)

lemma int_valued_add_gen:
  assumes x: "int_valued x a" and y: "int_valued y b"
    and h: "f32_holds (a + b)" and ab: "\<bar>a + b\<bar> < 2 ^ 128"
  shows "int_valued (f32_add x y) (a + b)"
proof -
  obtain s m e where xf: "x = Finite s m e" using x by (cases x) simp_all
  obtain t n d where yf: "y = Finite t n d" using y by (cases y) simp_all
  define c where "c = min e d"
  define z where "z = scaled s m e c + scaled t n d c"
  have "(of_int z :: real) * 2 powi c = valof x + valof y"
    unfolding z_def xf yf
    using scaled_val [of c e s m] scaled_val [of c d t n] by (simp add: c_def algebra_simps)
  then have zv: "(of_int z :: real) * 2 powi c = of_int (a + b)"
    using x y by (simp add: xf yf)
  have pos: "(0::real) < 2 powi c" by simp
  have sgn: "z < 0 \<longleftrightarrow> a + b < 0"
  proof -
    have "((of_int z :: real) * 2 powi c < 0) = ((of_int z :: real) < 0)"
      using mult_less_cancel_right_pos [OF pos, of "of_int z" 0] by simp
    then have "((of_int (a + b) :: real) < 0) = ((of_int z :: real) < 0)"
      by (simp only: zv)
    then show ?thesis unfolding of_int_less_0_iff by simp
  qed
  have z0: "z = 0 \<longleftrightarrow> a + b = 0"
  proof -
    have "((of_int z :: real) * 2 powi c = 0) = ((of_int z :: real) = 0)"
      by simp
    then have "((of_int (a + b) :: real) = 0) = ((of_int z :: real) = 0)"
      by (simp only: zv)
    then show ?thesis unfolding of_int_eq_0_iff by simp
  qed
  have unf: "f32_add x y = (if z = 0 then Finite (s \<and> t) 0 (- 149) else f32_round (z < 0) \<bar>z\<bar> c)"
    by (simp add: xf yf Let_def c_def z_def)
  show ?thesis
  proof (cases "z = 0")
    case True
    then show ?thesis using z0 by (simp add: unf)
  next
    case False
    have "(of_int \<bar>z\<bar> :: real) * 2 powi c = \<bar>of_int z * 2 powi c\<bar>"
      by (simp add: abs_mult)
    then have v: "(of_int \<bar>z\<bar> :: real) * 2 powi c = of_int \<bar>a + b\<bar>"
      using zv by simp
    have "\<exists>m' e'. m' < 2 ^ 24 \<and> - 149 \<le> e' \<and> e' \<le> 104
           \<and> (of_int \<bar>a + b\<bar> :: real) = of_int m' * 2 powi e'"
      using h ab by (rule f32_holds_repr)
    then have "int_valued (f32_round (z < 0) \<bar>z\<bar> c) (if z < 0 then - \<bar>a + b\<bar> else \<bar>a + b\<bar>)"
      using v by (intro int_valued_round_gen) simp_all
    moreover have "(if z < 0 then - \<bar>a + b\<bar> else \<bar>a + b\<bar>) = a + b"
      using sgn by simp
    ultimately show ?thesis using False by (simp add: unf)
  qed
qed

lemma sint32_bounds: "- (2 ^ 31) \<le> sint (w :: 32 word)" "sint (w :: 32 word) < 2 ^ 31"
  using sint_ge [of w] sint_lt [of w] by simp_all

lemma combine_exact_gen:
  assumes "16 \<le> length (up_sampled_vector mem)" and "16 \<le> length (decoded_data mem)"
    and "\<forall>i<16. \<bar>sint (up_sampled_vector mem ! i)\<bar> \<le> 2 ^ 24
           \<and> f32_holds (sint (up_sampled_vector mem ! i) + sint (decoded_data mem ! i))"
  shows "combine_samples mem = Some (mem\<lparr>up_sampled_vector :=
           map (\<lambda>i. up_sampled_vector mem ! i + scast (decoded_data mem ! i)) [0..<16]
           @ drop 16 (up_sampled_vector mem)\<rparr>)"
proof -
  have "cvtps2dq (f32_add (f32_of_int (sint (up_sampled_vector mem ! i)))
                          (f32_of_int (sint (decoded_data mem ! i))))
        = up_sampled_vector mem ! i + scast (decoded_data mem ! i)" if "i < 16" for i
  proof -
    let ?a = "sint (up_sampled_vector mem ! i)" and ?b = "sint (decoded_data mem ! i)"
    have a: "\<bar>?a\<bar> \<le> 2 ^ 24" and h: "f32_holds (?a + ?b)"
      using that assms(3) by simp_all
    have b: "\<bar>?b\<bar> \<le> 2 ^ 15"
      using sint_ge [of "decoded_data mem ! i"] sint_lt [of "decoded_data mem ! i"] by simp
    have ab: "\<bar>?a + ?b\<bar> \<le> 2 ^ 24 + 2 ^ 15" using a b by linarith
    have "int_valued (f32_add (f32_of_int ?a) (f32_of_int ?b)) (?a + ?b)"
      using a h ab by (intro int_valued_add_gen int_valued_of_int sint16_bound) simp_all
    then have "cvtps2dq (f32_add (f32_of_int ?a) (f32_of_int ?b)) = word_of_int (?a + ?b)"
      using ab by (intro cvtps2dq_int_valued) simp_all
    then show ?thesis by (simp only: word_sum_eq)
  qed
  then have "map (\<lambda>i. cvtps2dq (f32_add (f32_of_int (sint (up_sampled_vector mem ! i)))
                          (f32_of_int (sint (decoded_data mem ! i))))) [0..<16]
        = map (\<lambda>i. up_sampled_vector mem ! i + scast (decoded_data mem ! i)) [0..<16]"
    by (intro map_cong [OF refl]) simp
  then show ?thesis using assms(1,2) by (simp only: combine_result)
qed

lemma combine_zero_decoded_gen:
  assumes "16 \<le> length (up_sampled_vector mem)" and "16 \<le> length (decoded_data mem)"
    and "\<forall>i<16. decoded_data mem ! i = 0 \<and> f32_holds (sint (up_sampled_vector mem ! i))"
  shows "combine_samples mem = Some mem"
proof -
  have "cvtps2dq (f32_add (f32_of_int (sint (up_sampled_vector mem ! i)))
                          (f32_of_int (sint (decoded_data mem ! i))))
        = up_sampled_vector mem ! i" if "i < 16" for i
  proof -
    let ?a = "sint (up_sampled_vector mem ! i)"
    have h: "f32_holds ?a" and z: "decoded_data mem ! i = 0"
      using that assms(3) by simp_all
    have r: "- (2 ^ 31) \<le> ?a" "?a < 2 ^ 31" by (rule sint32_bounds)+
    then have big: "\<bar>?a\<bar> < 2 ^ 128" by simp
    have "int_valued (f32_of_int ?a) ?a"
      using h big by (rule int_valued_of_int_gen)
    moreover have "int_valued (f32_of_int 0) 0"
      by (intro int_valued_of_int) simp
    ultimately have "int_valued (f32_add (f32_of_int ?a) (f32_of_int 0)) (?a + 0)"
      using h big by (intro int_valued_add_gen) simp_all
    then have "cvtps2dq (f32_add (f32_of_int ?a) (f32_of_int 0)) = word_of_int ?a"
      using r by (intro cvtps2dq_int_valued) simp_all
    then show ?thesis by (simp add: z)
  qed
  then have "map (\<lambda>i. cvtps2dq (f32_add (f32_of_int (sint (up_sampled_vector mem ! i)))
                          (f32_of_int (sint (decoded_data mem ! i))))) [0..<16]
        = map (\<lambda>i. up_sampled_vector mem ! i) [0..<16]"
    by (intro map_cong [OF refl]) simp
  also have "\<dots> = take 16 (up_sampled_vector mem)"
    using assms(1) by (rule map_nth_take)
  finally have "map (\<lambda>i. cvtps2dq (f32_add (f32_of_int (sint (up_sampled_vector mem ! i)))
                          (f32_of_int (sint (decoded_data mem ! i))))) [0..<16]
        @ drop 16 (up_sampled_vector mem) = up_sampled_vector mem"
    by simp
  then show ?thesis
    using combine_result [OF assms(1,2)] by simp
qed

lemma f32_holds_if_cast_exact:
  assumes iv: "int_valued (f32_of_int n) n"
  shows "f32_holds n"
proof -
  obtain s m e where f: "f32_of_int n = Finite s m e" using iv by (cases "f32_of_int n") simp_all
  have "f32_valid (Finite s m e)" using f32_of_int_valid [of n] by (simp add: f)
  then have m24: "m < 2 ^ 24" by simp
  have m0: "0 \<le> m" and v: "(if s then - 1 else 1) * of_int m * 2 powi e = (of_int n :: real)"
    using iv by (simp_all add: f)
  define a where "a = \<bar>n\<bar>"
  have av: "(of_int a :: real) = of_int m * 2 powi e"
  proof -
    have "(of_int a :: real) = \<bar>(if s then - 1 else 1) * of_int m * 2 powi e\<bar>"
      by (simp only: v a_def of_int_abs)
    also have "\<dots> = of_int m * 2 powi e"
      using m0 by (simp add: abs_mult)
    finally show ?thesis .
  qed
  define k where "k = bitlen a"
  show ?thesis
  proof (cases "k \<le> 24")
    case True
    then show ?thesis by (simp add: f32_holds_def a_def [symmetric] k_def [symmetric])
  next
    case False
    then have apos: "0 < a"
      using bitlen_eq_zero_iff [of a] by (cases "a \<le> 0") (simp_all add: k_def)
    have "2 ^ nat (k - 1) \<le> a"
      using bitlen_bounds [OF apos] by (simp add: k_def)
    then have "(of_int (2 ^ nat (k - 1)) :: real) \<le> of_int a"
      by (simp only: of_int_le_iff)
    then have low: "(2::real) powi (k - 1) \<le> of_int m * 2 powi e"
      using False by (simp add: two_powi_nat av)
    have "(of_int m :: real) < of_int (2 ^ 24)"
      using m24 by (simp only: of_int_less_iff)
    then have "(of_int m :: real) * 2 powi e < 2 powi 24 * 2 powi e"
      by (simp add: mult_strict_right_mono)
    then have up: "(of_int m :: real) * 2 powi e < 2 powi (24 + e)"
      by (simp only: two_powi_add)
    have ke: "k - 1 < 24 + e"
    proof (rule ccontr)
      assume "\<not> k - 1 < 24 + e"
      then have "24 + e \<le> k - 1" by simp
      then have "(2::real) powi (24 + e) \<le> 2 powi (k - 1)"
        by (intro power_int_increasing) simp_all
      then show False using low up by linarith
    qed
    define t where "t = nat (k - 24)"
    have te: "int t \<le> e" and e0: "0 \<le> e"
      using ke False by (simp_all add: t_def)
    have "(of_int a :: real) = of_int (m * 2 ^ nat e)"
      using e0 by (simp add: av two_powi_nat)
    then have "a = m * 2 ^ nat e" by (simp only: of_int_eq_iff)
    moreover have "(2::int) ^ t dvd 2 ^ nat e"
      using te by (intro le_imp_power_dvd) simp
    ultimately have "2 ^ t dvd a" by simp
    then have "a mod 2 ^ t = 0" by (simp add: mod_eq_0_iff_dvd)
    then show ?thesis by (simp add: f32_holds_def a_def [symmetric] k_def [symmetric] t_def)
  qed
qed

lemma f32_holds_iff:
  assumes "\<bar>n\<bar> < 2 ^ 128"
  shows "f32_holds n \<longleftrightarrow> int_valued (f32_of_int n) n"
  using assms int_valued_of_int_gen f32_holds_if_cast_exact by blast

lemma cvt_upper: "sint (cvtps2dq (f32_of_int 32767)) = 32767"
  by code_simp

section \<open>Round trip through both kernels\<close>

text \<open>
  Claim C7. On arrays of at least 16 elements and for every gain and increment,
  \<^verbatim>\<open>collect_single_register\<close> returns, and \<^verbatim>\<open>combine_samples\<close> on the 16 values it stored,
  sign-extended to 32 bits, together with 16 zeros, leaves these values as they are.
\<close>

theorem collect_then_combine_zero:
  assumes "16 \<le> length (data_in mem)" and "16 \<le> length (data_out mem)"
  shows "\<exists>mem'. collect_single_register mem current_gain increment = Some mem'
           \<and> combine_samples \<lparr>up_sampled_vector = map scast (take 16 (data_out mem')),
                               decoded_data = replicate 16 0\<rparr>
               = Some \<lparr>up_sampled_vector = map scast (take 16 (data_out mem')),
                        decoded_data = replicate 16 0\<rparr>"
proof -
  define out' where "out' = store_values (mm512_cvtps_epi32 (limit_passes
       (mm512_mul_ps (gather_values (data_in mem)) (ramp_gain current_gain increment)))) (data_out mem)"
  have c: "collect_single_register mem current_gain increment = Some (mem\<lparr>data_out := out'\<rparr>)"
    using assms by (simp only: collect_Some out'_def)
  have len: "16 \<le> length out'"
    using assms(2) by (simp add: out'_def store_cvt_length)
  let ?w = "map scast (take 16 out') :: 32 word list"
  let ?M = "\<lparr>up_sampled_vector = ?w, decoded_data = replicate 16 (0 :: 16 word)\<rparr>"
  have "\<bar>sint (?w ! i)\<bar> \<le> 2 ^ 24" if "i < 16" for i
    using that len sint16_bound [of "out' ! i"] by (simp add: sint_scast_16_32)
  then have "\<forall>i<16. decoded_data ?M ! i = 0 \<and> \<bar>sint (up_sampled_vector ?M ! i)\<bar> \<le> 2 ^ 24"
    by simp
  moreover have "16 \<le> length (up_sampled_vector ?M)" and "16 \<le> length (decoded_data ?M)"
    using len by simp_all
  ultimately have "combine_samples ?M = Some ?M"
    by (intro combine_zero_decoded)
  then show ?thesis using c by simp
qed

theorem collect_then_combine_zero_witness:
  "collect_single_register \<lparr>data_in = replicate 16 20000, data_out = replicate 16 0\<rparr>
       (f32_of_int 2) (f32_of_int 0)
     = Some \<lparr>data_in = replicate 16 20000, data_out = replicate 16 (- 25536)\<rparr>
   \<and> combine_samples \<lparr>up_sampled_vector = replicate 16 (- 25536), decoded_data = replicate 16 0\<rparr>
     = Some \<lparr>up_sampled_vector = replicate 16 (- 25536), decoded_data = replicate 16 0\<rparr>"
proof -
  let ?M = "\<lparr>data_in = replicate 16 (20000 :: 32 word), data_out = replicate 16 (0 :: 16 word)\<rparr>"
  let ?R = "\<lparr>data_in = replicate 16 (20000 :: 32 word), data_out = replicate 16 (- 25536 :: 16 word)\<rparr>"
  have l: "16 \<le> length (data_in ?M)" "16 \<le> length (data_out ?M)"
    by simp_all
  have e: "collect_single_register ?M (f32_of_int 2) (f32_of_int 0) = Some ?R"
    by code_simp
  have w: "map scast (take 16 (data_out ?R)) = replicate 16 (- 25536 :: 32 word)"
    by code_simp
  from collect_then_combine_zero [OF l, of "f32_of_int 2" "f32_of_int 0"]
  obtain mem' where m: "collect_single_register ?M (f32_of_int 2) (f32_of_int 0) = Some mem'"
    and k: "combine_samples \<lparr>up_sampled_vector = map scast (take 16 (data_out mem')),
                               decoded_data = replicate 16 0\<rparr>
               = Some \<lparr>up_sampled_vector = map scast (take 16 (data_out mem')),
                        decoded_data = replicate 16 0\<rparr>"
    by blast
  have "mem' = ?R" using m e by simp
  then show ?thesis using k e by (simp only: w)
qed

section \<open>Precision of the float lanes\<close>



section \<open>Saturation\<close>

text \<open>
  Claim C4 at its own example: a block of 16 samples 20000 with gain 2.0 and increment 0.
  The product 40000 is not negative, so its lane takes the masked MAXPS against the lower
  limit and skips the MINPS against the upper limit; 40000 is converted and the narrowing
  store keeps its low 16 bits, -25536, where the claim has 32767.
\<close>

theorem collect_saturation_missing:
  "collect_single_register \<lparr>data_in = replicate 16 20000, data_out = replicate 16 0\<rparr>
       (f32_of_int 2) (f32_of_int 0)
     = Some \<lparr>data_in = replicate 16 20000, data_out = replicate 16 (- 25536)\<rparr>
   \<and> (- 25536 :: 16 word) \<noteq> 32767"
  by code_simp

section \<open>What the kernels read and write\<close>

text \<open>
  Claim C6. On arrays of at least 16 elements each kernel returns and touches only the
  first 16 elements of its arrays. \<^verbatim>\<open>collect_single_register\<close> leaves \<^verbatim>\<open>data_in\<close>, the
  elements of \<^verbatim>\<open>data_out\<close> from index 16 on and the rest of the program state as they
  were, and the 16 values it writes depend only on the first 16 elements of
  \<^verbatim>\<open>data_in\<close>. \<^verbatim>\<open>combine_samples\<close> leaves \<^verbatim>\<open>decoded_data\<close>, the elements of
  \<^verbatim>\<open>up_sampled_vector\<close> from index 16 on and the rest of the state as they were, and the
  16 values it writes depend only on the first 16 elements of its two arrays.
\<close>

theorem kernels_frame:
  "(\<forall>mem mem2 current_gain increment.
      16 \<le> length (data_in mem) \<and> 16 \<le> length (data_out mem)
      \<and> 16 \<le> length (data_in mem2) \<and> 16 \<le> length (data_out mem2)
      \<and> take 16 (data_in mem2) = take 16 (data_in mem)
      \<longrightarrow> (\<exists>mem' mem2'. collect_single_register mem current_gain increment = Some mem'
             \<and> collect_single_register mem2 current_gain increment = Some mem2'
             \<and> data_in mem' = data_in mem \<and> collect_mem.more mem' = collect_mem.more mem
             \<and> length (data_out mem') = length (data_out mem)
             \<and> drop 16 (data_out mem') = drop 16 (data_out mem)
             \<and> take 16 (data_out mem2') = take 16 (data_out mem')))
   \<and> (\<forall>mem mem2.
      16 \<le> length (up_sampled_vector mem) \<and> 16 \<le> length (decoded_data mem)
      \<and> 16 \<le> length (up_sampled_vector mem2) \<and> 16 \<le> length (decoded_data mem2)
      \<and> take 16 (up_sampled_vector mem2) = take 16 (up_sampled_vector mem)
      \<and> take 16 (decoded_data mem2) = take 16 (decoded_data mem)
      \<longrightarrow> (\<exists>mem' mem2'. combine_samples mem = Some mem' \<and> combine_samples mem2 = Some mem2'
             \<and> decoded_data mem' = decoded_data mem \<and> combine_mem.more mem' = combine_mem.more mem
             \<and> length (up_sampled_vector mem') = length (up_sampled_vector mem)
             \<and> drop 16 (up_sampled_vector mem') = drop 16 (up_sampled_vector mem)
             \<and> take 16 (up_sampled_vector mem2') = take 16 (up_sampled_vector mem')))"
proof (intro conjI allI impI)
  fix mem :: "'a collect_mem_scheme" and mem2 :: "'b collect_mem_scheme"
    and current_gain increment
  assume h: "16 \<le> length (data_in mem) \<and> 16 \<le> length (data_out mem)
      \<and> 16 \<le> length (data_in mem2) \<and> 16 \<le> length (data_out mem2)
      \<and> take 16 (data_in mem2) = take 16 (data_in mem)"
  then have l: "16 \<le> length (data_in mem)" "16 \<le> length (data_out mem)"
    and l2: "16 \<le> length (data_in mem2)" "16 \<le> length (data_out mem2)"
    and t: "take 16 (data_in mem2) = take 16 (data_in mem)"
    by simp_all
  have "map (\<lambda>i. (ucast (cvtps2dq (limit_lane (f32_mul (f32_of_int (sint (data_in mem2 ! i)))
                  (f32_add current_gain (f32_mul increment (f32_of_int (15 - int i))))))) :: 16 word))
                 [0..<16]
        = map (\<lambda>i. ucast (cvtps2dq (limit_lane (f32_mul (f32_of_int (sint (data_in mem ! i)))
                  (f32_add current_gain (f32_mul increment (f32_of_int (15 - int i))))))))
                 [0..<16]"
    by (rule map_cong [OF refl]) (simp add: take_eq_nth [OF t])
  then show "\<exists>mem' mem2'. collect_single_register mem current_gain increment = Some mem'
             \<and> collect_single_register mem2 current_gain increment = Some mem2'
             \<and> data_in mem' = data_in mem \<and> collect_mem.more mem' = collect_mem.more mem
             \<and> length (data_out mem') = length (data_out mem)
             \<and> drop 16 (data_out mem') = drop 16 (data_out mem)
             \<and> take 16 (data_out mem2') = take 16 (data_out mem')"
    using collect_frame [OF l, of current_gain increment]
      collect_frame [OF l2, of current_gain increment]
    by auto
next
  fix mem :: "'c combine_mem_scheme" and mem2 :: "'d combine_mem_scheme"
  assume h: "16 \<le> length (up_sampled_vector mem) \<and> 16 \<le> length (decoded_data mem)
      \<and> 16 \<le> length (up_sampled_vector mem2) \<and> 16 \<le> length (decoded_data mem2)
      \<and> take 16 (up_sampled_vector mem2) = take 16 (up_sampled_vector mem)
      \<and> take 16 (decoded_data mem2) = take 16 (decoded_data mem)"
  then have l: "16 \<le> length (up_sampled_vector mem)" "16 \<le> length (decoded_data mem)"
    and l2: "16 \<le> length (up_sampled_vector mem2)" "16 \<le> length (decoded_data mem2)"
    and t: "take 16 (up_sampled_vector mem2) = take 16 (up_sampled_vector mem)"
    and u: "take 16 (decoded_data mem2) = take 16 (decoded_data mem)"
    by simp_all
  have "map (\<lambda>i. cvtps2dq (f32_add (f32_of_int (sint (up_sampled_vector mem2 ! i)))
                                      (f32_of_int (sint (decoded_data mem2 ! i))))) [0..<16]
        = map (\<lambda>i. cvtps2dq (f32_add (f32_of_int (sint (up_sampled_vector mem ! i)))
                                      (f32_of_int (sint (decoded_data mem ! i))))) [0..<16]"
    by (rule map_cong [OF refl]) (simp add: take_eq_nth [OF t] take_eq_nth [OF u])
  then show "\<exists>mem' mem2'. combine_samples mem = Some mem' \<and> combine_samples mem2 = Some mem2'
             \<and> decoded_data mem' = decoded_data mem \<and> combine_mem.more mem' = combine_mem.more mem
             \<and> length (up_sampled_vector mem') = length (up_sampled_vector mem)
             \<and> drop 16 (up_sampled_vector mem') = drop 16 (up_sampled_vector mem)
             \<and> take 16 (up_sampled_vector mem2') = take 16 (up_sampled_vector mem')"
    using combine_frame [OF l] combine_frame [OF l2] by auto
qed

theorem kernels_frame_witness:
  "collect_single_register \<lparr>data_in = replicate 16 1000 @ [7], data_out = replicate 16 0 @ [5, 6]\<rparr>
       (f32_of_int 2) (f32_of_int 0)
     = Some \<lparr>data_in = replicate 16 1000 @ [7], data_out = replicate 16 2000 @ [5, 6]\<rparr>
   \<and> (\<exists>mem2'. collect_single_register \<lparr>data_in = replicate 16 1000 @ [9, 9], data_out = replicate 17 3\<rparr>
                 (f32_of_int 2) (f32_of_int 0) = Some mem2'
          \<and> take 16 (data_out mem2') = replicate 16 2000)
   \<and> combine_samples \<lparr>up_sampled_vector = replicate 16 100 @ [8], decoded_data = replicate 16 50 @ [4]\<rparr>
     = Some \<lparr>up_sampled_vector = replicate 16 150 @ [8], decoded_data = replicate 16 50 @ [4]\<rparr>
   \<and> (\<exists>mem2'. combine_samples \<lparr>up_sampled_vector = replicate 16 100, decoded_data = replicate 16 50\<rparr>
          = Some mem2'
          \<and> take 16 (up_sampled_vector mem2') = replicate 16 150)"
proof -
  let ?A = "\<lparr>data_in = replicate 16 (1000 :: 32 word) @ [7],
             data_out = replicate 16 (0 :: 16 word) @ [5, 6]\<rparr>"
  let ?A2 = "\<lparr>data_in = replicate 16 (1000 :: 32 word) @ [9, 9],
              data_out = replicate 17 (3 :: 16 word)\<rparr>"
  let ?B = "\<lparr>up_sampled_vector = replicate 16 (100 :: 32 word) @ [8],
             decoded_data = replicate 16 (50 :: 16 word) @ [4]\<rparr>"
  let ?B2 = "\<lparr>up_sampled_vector = replicate 16 (100 :: 32 word),
              decoded_data = replicate 16 (50 :: 16 word)\<rparr>"
  have ha: "16 \<le> length (data_in ?A) \<and> 16 \<le> length (data_out ?A)
      \<and> 16 \<le> length (data_in ?A2) \<and> 16 \<le> length (data_out ?A2)
      \<and> take 16 (data_in ?A2) = take 16 (data_in ?A)"
    by simp
  have hb: "16 \<le> length (up_sampled_vector ?B) \<and> 16 \<le> length (decoded_data ?B)
      \<and> 16 \<le> length (up_sampled_vector ?B2) \<and> 16 \<le> length (decoded_data ?B2)
      \<and> take 16 (up_sampled_vector ?B2) = take 16 (up_sampled_vector ?B)
      \<and> take 16 (decoded_data ?B2) = take 16 (decoded_data ?B)"
    by simp
  have ea: "collect_single_register ?A (f32_of_int 2) (f32_of_int 0)
      = Some \<lparr>data_in = replicate 16 1000 @ [7], data_out = replicate 16 2000 @ [5, 6]\<rparr>"
    by code_simp
  have eb: "combine_samples ?B
      = Some \<lparr>up_sampled_vector = replicate 16 150 @ [8], decoded_data = replicate 16 50 @ [4]\<rparr>"
    by code_simp
  have ta: "take 16 (data_out \<lparr>data_in = replicate 16 (1000 :: 32 word) @ [7],
                 data_out = replicate 16 (2000 :: 16 word) @ [5, 6]\<rparr>) = replicate 16 2000"
    by simp
  have tb: "take 16 (up_sampled_vector \<lparr>up_sampled_vector = replicate 16 (150 :: 32 word) @ [8],
                 decoded_data = replicate 16 (50 :: 16 word) @ [4]\<rparr>) = replicate 16 150"
    by simp
  from kernels_frame [THEN conjunct1, rule_format, OF ha, of "f32_of_int 2" "f32_of_int 0"]
  obtain mem' mem2' where a: "collect_single_register ?A (f32_of_int 2) (f32_of_int 0) = Some mem'"
    "collect_single_register ?A2 (f32_of_int 2) (f32_of_int 0) = Some mem2'"
    "take 16 (data_out mem2') = take 16 (data_out mem')"
    by blast
  from a(1) ea have "mem' = \<lparr>data_in = replicate 16 1000 @ [7], data_out = replicate 16 2000 @ [5, 6]\<rparr>"
    by simp
  with a(3) have a3: "take 16 (data_out mem2') = replicate 16 2000"
    by (simp only: ta)
  from kernels_frame [THEN conjunct2, rule_format, OF hb]
  obtain m' m2' where b: "combine_samples ?B = Some m'" "combine_samples ?B2 = Some m2'"
    "take 16 (up_sampled_vector m2') = take 16 (up_sampled_vector m')"
    by blast
  from b(1) eb have "m' = \<lparr>up_sampled_vector = replicate 16 150 @ [8], decoded_data = replicate 16 50 @ [4]\<rparr>"
    by simp
  with b(3) have b3: "take 16 (up_sampled_vector m2') = replicate 16 150"
    by (simp only: tb)
  show ?thesis using ea eb a(2) a3 b(2) b3 by blast
qed

section \<open>Ties in the conversion to integers\<close>

text \<open>
  Claim C9. Both kernels store, lane by lane, the CVTPS2DQ conversion of their float
  result, a well-formed binary32 value, and this conversion rounds to the nearest integer
  with ties to even: for a finite lane within the 32-bit range the converted integer is
  at most one half away from the lane's value, and when it is exactly one half away it
  is even. So 0.5 converts to 0 and 2.5 to 2, and a block of samples 5 with gain 0.5 is
  stored as 2.
\<close>

theorem conversion_rounds_half_to_even:
  "(\<forall>x. f32_valid x \<and> is_finite x \<and> - (2 ^ 31) \<le> valof x \<and> valof x \<le> 2 ^ 31 - 1
      \<longrightarrow> \<bar>valof x - of_int (sint (cvtps2dq x))\<bar> \<le> 1 / 2
        \<and> (\<bar>valof x - of_int (sint (cvtps2dq x))\<bar> = 1 / 2 \<longrightarrow> even (sint (cvtps2dq x))))
   \<and> (\<forall>mem current_gain increment i.
        16 \<le> length (data_in mem) \<and> 16 \<le> length (data_out mem) \<and> i < 16
        \<and> f32_valid current_gain \<and> f32_valid increment
      \<longrightarrow> (\<exists>mem'. collect_single_register mem current_gain increment = Some mem'
             \<and> f32_valid (limit_passes (mm512_mul_ps
                 (gather_values (data_in mem)) (ramp_gain current_gain increment)) ! i)
             \<and> data_out mem' ! i = ucast (cvtps2dq (limit_passes (mm512_mul_ps
                 (gather_values (data_in mem)) (ramp_gain current_gain increment)) ! i))))
   \<and> (\<forall>mem i.
        16 \<le> length (up_sampled_vector mem) \<and> 16 \<le> length (decoded_data mem) \<and> i < 16
      \<longrightarrow> (\<exists>mem'. combine_samples mem = Some mem'
             \<and> f32_valid (mm512_add_ps
                 (gather_values (up_sampled_vector mem)) (gather_values (decoded_data mem)) ! i)
             \<and> up_sampled_vector mem' ! i = cvtps2dq (mm512_add_ps
                 (gather_values (up_sampled_vector mem)) (gather_values (decoded_data mem)) ! i)))
   \<and> valof (Finite False 8388608 (- 24)) = 1 / 2 \<and> cvtps2dq (Finite False 8388608 (- 24)) = 0
   \<and> valof (Finite False 10485760 (- 22)) = 5 / 2 \<and> cvtps2dq (Finite False 10485760 (- 22)) = 2
   \<and> collect_single_register \<lparr>data_in = replicate 16 5, data_out = replicate 16 0\<rparr>
        (Finite False 8388608 (- 24)) (f32_of_int 0)
      = Some \<lparr>data_in = replicate 16 5, data_out = replicate 16 2\<rparr>"
proof -
  have v1: "valof (Finite False 8388608 (- 24)) = 1 / 2"
    by simp
  have v2: "valof (Finite False 10485760 (- 22)) = 5 / 2"
    by simp
  have c1: "cvtps2dq (Finite False 8388608 (- 24)) = 0"
    by code_simp
  have c2: "cvtps2dq (Finite False 10485760 (- 22)) = 2"
    by code_simp
  have k: "collect_single_register \<lparr>data_in = replicate 16 5, data_out = replicate 16 0\<rparr>
        (Finite False 8388608 (- 24)) (f32_of_int 0)
      = Some \<lparr>data_in = replicate 16 5, data_out = replicate 16 2\<rparr>"
    by code_simp
  have a: "\<bar>valof x - of_int (sint (cvtps2dq x))\<bar> \<le> 1 / 2
        \<and> (\<bar>valof x - of_int (sint (cvtps2dq x))\<bar> = 1 / 2 \<longrightarrow> even (sint (cvtps2dq x)))"
    if "f32_valid x \<and> is_finite x \<and> - (2 ^ 31) \<le> valof x \<and> valof x \<le> 2 ^ 31 - 1" for x
    using that by (intro cvtps2dq_nearest) simp_all
  have b: "\<exists>mem'. collect_single_register mem current_gain increment = Some mem'
             \<and> f32_valid (limit_passes (mm512_mul_ps
                 (gather_values (data_in mem)) (ramp_gain current_gain increment)) ! i)
             \<and> data_out mem' ! i = ucast (cvtps2dq (limit_passes (mm512_mul_ps
                 (gather_values (data_in mem)) (ramp_gain current_gain increment)) ! i))"
    if "16 \<le> length (data_in mem) \<and> 16 \<le> length (data_out mem) \<and> i < 16
        \<and> f32_valid current_gain \<and> f32_valid increment"
    for mem :: "'a collect_mem_scheme" and current_gain increment i
    using that collect_lane_raw [of mem i current_gain increment]
      collect_lane_valid [of i current_gain increment "data_in mem"]
    by blast
  have c: "\<exists>mem'. combine_samples mem = Some mem'
             \<and> f32_valid (mm512_add_ps
                 (gather_values (up_sampled_vector mem)) (gather_values (decoded_data mem)) ! i)
             \<and> up_sampled_vector mem' ! i = cvtps2dq (mm512_add_ps
                 (gather_values (up_sampled_vector mem)) (gather_values (decoded_data mem)) ! i)"
    if "16 \<le> length (up_sampled_vector mem) \<and> 16 \<le> length (decoded_data mem) \<and> i < 16"
    for mem :: "'b combine_mem_scheme" and i
    using that combine_lane_raw [of mem i]
      combine_lane_valid [of i "up_sampled_vector mem" "decoded_data mem"]
    by blast
  show ?thesis
    using a b c v1 v2 c1 c2 k by (intro conjI allI) blast+
qed

theorem conversion_rounds_half_to_even_witness:
  "f32_valid (Finite False 10485760 (- 22)) \<and> is_finite (Finite False 10485760 (- 22))
   \<and> - (2 ^ 31) \<le> valof (Finite False 10485760 (- 22))
   \<and> valof (Finite False 10485760 (- 22)) \<le> 2 ^ 31 - 1
   \<and> \<bar>valof (Finite False 10485760 (- 22))
        - of_int (sint (cvtps2dq (Finite False 10485760 (- 22))))\<bar> = 1 / 2
   \<and> even (sint (cvtps2dq (Finite False 10485760 (- 22))))"
proof -
  let ?x = "Finite False 10485760 (- 22)"
  have h: "f32_valid ?x \<and> is_finite ?x \<and> - (2 ^ 31) \<le> valof ?x \<and> valof ?x \<le> 2 ^ 31 - 1"
    by simp
  have c: "cvtps2dq ?x = 2"
    by code_simp
  have s: "sint (cvtps2dq ?x) = 2"
    by (simp only: c) simp
  have d: "\<bar>valof ?x - of_int (sint (cvtps2dq ?x))\<bar> = 1 / 2"
    by (simp only: s) simp
  from conversion_rounds_half_to_even [THEN conjunct1, rule_format, OF h]
  have "\<bar>valof ?x - of_int (sint (cvtps2dq ?x))\<bar> = 1 / 2 \<longrightarrow> even (sint (cvtps2dq ?x))"
    by (rule conjunct2)
  then have "even (sint (cvtps2dq ?x))" using d by (rule mp)
  then show ?thesis using h d by blast
qed

section \<open>Range of the stored samples\<close>


section \<open>Wrap-around of the narrowing store\<close>

text \<open>
  Claim C2. On arrays of at least 16 elements, for every gain and increment and every
  lane whose rounded 32-bit value (the lane \<^verbatim>\<open>_mm512_cvtps_epi32\<close> converts) lies outside
  -32768 .. 32767, the value stored in \<^verbatim>\<open>data_out\<close> is that 32-bit value reduced modulo
  \<open>2^16\<close> and read as a signed 16-bit integer; and the lane converted is the product of
  sample and gain itself, which the masked passes have not changed. A block of samples
  20000 with gain 2.0 and increment 0 stores -25536.
\<close>

theorem collect_wraps_outside_range:
  assumes "16 \<le> length (data_in mem)" and "16 \<le> length (data_out mem)" and "i < 16"
    and "sint (cvtps2dq (limit_passes (mm512_mul_ps (gather_values (data_in mem))
                 (ramp_gain current_gain increment)) ! i)) < - 32768
         \<or> 32767 < sint (cvtps2dq (limit_passes (mm512_mul_ps (gather_values (data_in mem))
                 (ramp_gain current_gain increment)) ! i))"
  shows "\<exists>mem'. collect_single_register mem current_gain increment = Some mem'
           \<and> sint (data_out mem' ! i)
               = (sint (cvtps2dq (limit_passes (mm512_mul_ps (gather_values (data_in mem))
                    (ramp_gain current_gain increment)) ! i)) + 32768) mod 65536 - 32768
           \<and> limit_passes (mm512_mul_ps (gather_values (data_in mem))
                    (ramp_gain current_gain increment)) ! i
               = f32_mul (f32_of_int (sint (data_in mem ! i)))
                   (f32_add current_gain (f32_mul increment (f32_of_int (15 - int i))))"
proof -
  let ?p = "f32_mul (f32_of_int (sint (data_in mem ! i)))
              (f32_add current_gain (f32_mul increment (f32_of_int (15 - int i))))"
  let ?L = "limit_passes (mm512_mul_ps (gather_values (data_in mem))
              (ramp_gain current_gain increment)) ! i"
  have L: "?L = limit_lane ?p"
    using assms(3) by (simp add: limit_passes_nth product_nth)
  have "\<not> is_nan ?p"
  proof
    assume "is_nan ?p"
    then have "?L = f32_of_int 32767" by (simp add: L limit_lane_def)
    then have "sint (cvtps2dq ?L) = 32767" by (simp only: cvt_upper)
    then show False using assms(4) by simp
  qed
  then have Lp: "?L = ?p" by (simp add: L limit_lane_def)
  obtain mem' where m: "collect_single_register mem current_gain increment = Some mem'"
    and s: "data_out mem' ! i = ucast (cvtps2dq ?L)"
    using collect_lane_raw [OF assms(1,2,3), of current_gain increment] by blast
  have "sint (data_out mem' ! i) = (sint (cvtps2dq ?L) + 32768) mod 65536 - 32768"
    by (simp only: s sint_ucast_32_16)
  then show ?thesis using m Lp by blast
qed

theorem collect_wraps_outside_range_witness:
  "32767 < sint (cvtps2dq (limit_passes (mm512_mul_ps (gather_values (replicate 16 (20000 :: 32 word)))
                 (ramp_gain (f32_of_int 2) (f32_of_int 0))) ! 0))
   \<and> (\<exists>mem'. collect_single_register \<lparr>data_in = replicate 16 20000, data_out = replicate 16 0\<rparr>
                 (f32_of_int 2) (f32_of_int 0) = Some mem'
          \<and> sint (data_out mem' ! 0) = - 25536)"
proof -
  let ?M = "\<lparr>data_in = replicate 16 (20000 :: 32 word), data_out = replicate 16 (0 :: 16 word)\<rparr>"
  let ?L = "limit_passes (mm512_mul_ps (gather_values (data_in ?M))
              (ramp_gain (f32_of_int 2) (f32_of_int 0))) ! 0"
  have l: "16 \<le> length (data_in ?M)" "16 \<le> length (data_out ?M)" "(0::nat) < 16"
    by simp_all
  have r': "32767 < sint (cvtps2dq ?L)"
    by code_simp
  then have r: "sint (cvtps2dq ?L) < - 32768 \<or> 32767 < sint (cvtps2dq ?L)"
    by (rule disjI2)
  have e: "(sint (cvtps2dq ?L) + 32768) mod 65536 - 32768 = - 25536"
    by code_simp
  have p: "data_in ?M = replicate 16 20000"
    by simp
  from collect_wraps_outside_range [OF l r]
  have "\<exists>mem'. collect_single_register ?M (f32_of_int 2) (f32_of_int 0) = Some mem'
          \<and> sint (data_out mem' ! 0) = - 25536"
    unfolding e by blast
  then show ?thesis using r' unfolding p by blast
qed

section \<open>Direction of the gain ramp\<close>

text \<open>
  Claim C3. On arrays of at least 16 elements, for every gain and increment, lane \<open>i\<close>
  of the gain register is \<open>current_gain + increment * (15 - i)\<close>, computed in binary32,
  and the value \<^verbatim>\<open>collect_single_register\<close> stores at index \<open>i\<close> is the conversion of
  sample \<open>i\<close> times that gain, narrowed to 16 bits (a NaN product being replaced by the
  upper limit). The largest multiple of the increment goes to lane 0 and the bare gain
  to lane 15: with gain 0, increment 1 and all samples 1 the stored block is
  15, 14, ..., 0.
\<close>

theorem ramp_gain_reversed:
  "(\<forall>mem current_gain increment i.
       16 \<le> length (data_in mem) \<and> 16 \<le> length (data_out mem) \<and> i < 16
     \<longrightarrow> ramp_gain current_gain increment ! i
           = f32_add current_gain (f32_mul increment (f32_of_int (15 - int i)))
         \<and> (\<exists>mem'. collect_single_register mem current_gain increment = Some mem'
               \<and> data_out mem' ! i
                   = ucast (cvtps2dq (limit_lane (f32_mul (f32_of_int (sint (data_in mem ! i)))
                       (f32_add current_gain (f32_mul increment (f32_of_int (15 - int i)))))))))
   \<and> collect_single_register \<lparr>data_in = replicate 16 1, data_out = replicate 16 0\<rparr>
        (f32_of_int 0) (f32_of_int 1)
      = Some \<lparr>data_in = replicate 16 1,
               data_out = [15, 14, 13, 12, 11, 10, 9, 8, 7, 6, 5, 4, 3, 2, 1, 0]\<rparr>"
proof -
  have a: "ramp_gain current_gain increment ! i
           = f32_add current_gain (f32_mul increment (f32_of_int (15 - int i)))
         \<and> (\<exists>mem'. collect_single_register mem current_gain increment = Some mem'
               \<and> data_out mem' ! i
                   = ucast (cvtps2dq (limit_lane (f32_mul (f32_of_int (sint (data_in mem ! i)))
                       (f32_add current_gain (f32_mul increment (f32_of_int (15 - int i))))))))"
    if "16 \<le> length (data_in mem) \<and> 16 \<le> length (data_out mem) \<and> i < 16"
    for mem :: "'a collect_mem_scheme" and current_gain increment i
    using that ramp_gain_nth [of i current_gain increment]
      collect_lane [of mem i current_gain increment]
    by blast
  have k: "collect_single_register \<lparr>data_in = replicate 16 1, data_out = replicate 16 0\<rparr>
        (f32_of_int 0) (f32_of_int 1)
      = Some \<lparr>data_in = replicate 16 1,
               data_out = [15, 14, 13, 12, 11, 10, 9, 8, 7, 6, 5, 4, 3, 2, 1, 0]\<rparr>"
    by code_simp
  show ?thesis using a k by (intro conjI allI) blast+
qed

theorem ramp_gain_reversed_witness:
  "(\<exists>mem'. collect_single_register \<lparr>data_in = replicate 16 1, data_out = replicate 16 0\<rparr>
       (f32_of_int 0) (f32_of_int 1) = Some mem' \<and> data_out mem' ! 0 = 15)
   \<and> (\<exists>mem'. collect_single_register \<lparr>data_in = replicate 16 3, data_out = replicate 16 0\<rparr>
       (f32_of_int 2) (f32_of_int 1) = Some mem' \<and> data_out mem' ! 15 = 6)"
proof -
  let ?M = "\<lparr>data_in = replicate 16 (1 :: 32 word), data_out = replicate 16 (0 :: 16 word)\<rparr>"
  let ?N = "\<lparr>data_in = replicate 16 (3 :: 32 word), data_out = replicate 16 (0 :: 16 word)\<rparr>"
  have h0: "16 \<le> length (data_in ?M) \<and> 16 \<le> length (data_out ?M) \<and> (0::nat) < 16"
    by simp
  have h15: "16 \<le> length (data_in ?N) \<and> 16 \<le> length (data_out ?N) \<and> (15::nat) < 16"
    by simp
  have e0: "(ucast (cvtps2dq (limit_lane (f32_mul (f32_of_int (sint (data_in ?M ! 0)))
              (f32_add (f32_of_int 0) (f32_mul (f32_of_int 1) (f32_of_int (15 - int 0))))))) :: 16 word)
            = 15"
    by code_simp
  have e15: "(ucast (cvtps2dq (limit_lane (f32_mul (f32_of_int (sint (data_in ?N ! 15)))
              (f32_add (f32_of_int 2) (f32_mul (f32_of_int 1) (f32_of_int (15 - int 15))))))) :: 16 word)
            = 6"
    by code_simp
  have "\<exists>mem'. collect_single_register ?M (f32_of_int 0) (f32_of_int 1) = Some mem'
          \<and> data_out mem' ! 0 = 15"
    using ramp_gain_reversed [THEN conjunct1, rule_format, OF h0, of "f32_of_int 0" "f32_of_int 1"]
    unfolding e0 by blast
  moreover have "\<exists>mem'. collect_single_register ?N (f32_of_int 2) (f32_of_int 1) = Some mem'
          \<and> data_out mem' ! 15 = 6"
    using ramp_gain_reversed [THEN conjunct1, rule_format, OF h15, of "f32_of_int 2" "f32_of_int 1"]
    unfolding e15 by blast
  ultimately show ?thesis by blast
qed

section \<open>Combining two blocks\<close>

text \<open>
  Claim C5, as amended. On arrays of at least 16 elements, when each of the first 16
  elements of \<^verbatim>\<open>up_sampled_vector\<close> has magnitude at most \<open>2^24\<close> (the range in which
  binary32 holds every integer) and its sum with the element of \<^verbatim>\<open>decoded_data\<close> at the
  same index is an integer binary32 holds, \<^verbatim>\<open>combine_samples\<close> overwrites each of these
  16 elements with that sum, unclamped, and leaves the rest of the memory as it was.
\<close>

theorem combine_samples_adds:
  assumes "16 \<le> length (up_sampled_vector mem)" and "16 \<le> length (decoded_data mem)"
    and "\<forall>i<16. \<bar>sint (up_sampled_vector mem ! i)\<bar> \<le> 2 ^ 24
           \<and> f32_holds (sint (up_sampled_vector mem ! i) + sint (decoded_data mem ! i))"
  shows "combine_samples mem = Some (mem\<lparr>up_sampled_vector :=
           map (\<lambda>i. up_sampled_vector mem ! i + scast (decoded_data mem ! i)) [0..<16]
           @ drop 16 (up_sampled_vector mem)\<rparr>)"
  using assms by (rule combine_exact_gen)

theorem combine_samples_adds_witness:
  "combine_samples \<lparr>up_sampled_vector = replicate 16 100, decoded_data = replicate 16 50\<rparr>
     = Some \<lparr>up_sampled_vector = replicate 16 150, decoded_data = replicate 16 50\<rparr>
   \<and> combine_samples \<lparr>up_sampled_vector = replicate 16 16777216, decoded_data = replicate 16 2\<rparr>
     = Some \<lparr>up_sampled_vector = replicate 16 16777218, decoded_data = replicate 16 2\<rparr>"
proof -
  let ?M = "\<lparr>up_sampled_vector = replicate 16 (100 :: 32 word),
             decoded_data = replicate 16 (50 :: 16 word)\<rparr>"
  let ?N = "\<lparr>up_sampled_vector = replicate 16 (16777216 :: 32 word),
             decoded_data = replicate 16 (2 :: 16 word)\<rparr>"
  have l: "16 \<le> length (up_sampled_vector ?M)" "16 \<le> length (decoded_data ?M)"
    and k: "16 \<le> length (up_sampled_vector ?N)" "16 \<le> length (decoded_data ?N)"
    by simp_all
  have h150: "f32_holds 150" and h218: "f32_holds 16777218"
    by code_simp+
  have h: "\<forall>i<16. \<bar>sint (up_sampled_vector ?M ! i)\<bar> \<le> 2 ^ 24
           \<and> f32_holds (sint (up_sampled_vector ?M ! i) + sint (decoded_data ?M ! i))"
    using h150 by simp
  have g: "\<forall>i<16. \<bar>sint (up_sampled_vector ?N ! i)\<bar> \<le> 2 ^ 24
           \<and> f32_holds (sint (up_sampled_vector ?N ! i) + sint (decoded_data ?N ! i))"
    using h218 by simp
  have e: "?M\<lparr>up_sampled_vector :=
             map (\<lambda>i. up_sampled_vector ?M ! i + scast (decoded_data ?M ! i)) [0..<16]
             @ drop 16 (up_sampled_vector ?M)\<rparr>
           = \<lparr>up_sampled_vector = replicate 16 150, decoded_data = replicate 16 50\<rparr>"
    by code_simp
  have d: "?N\<lparr>up_sampled_vector :=
             map (\<lambda>i. up_sampled_vector ?N ! i + scast (decoded_data ?N ! i)) [0..<16]
             @ drop 16 (up_sampled_vector ?N)\<rparr>
           = \<lparr>up_sampled_vector = replicate 16 16777218, decoded_data = replicate 16 2\<rparr>"
    by code_simp
  show ?thesis
    using combine_samples_adds [OF l h] combine_samples_adds [OF k g] by (simp only: e d)
qed

text \<open>
  With both operands in that range the sum need not be: 16777215 + 2 = 16777217 is not
  a binary32 value, the addition rounds it, and 16777216 is stored.
\<close>

theorem combine_samples_adds_counterexample:
  "\<bar>sint (16777215 :: 32 word)\<bar> \<le> 2 ^ 24 \<and> \<bar>sint (2 :: 16 word)\<bar> \<le> 2 ^ 24
   \<and> combine_samples \<lparr>up_sampled_vector = replicate 16 16777215, decoded_data = replicate 16 2\<rparr>
     = Some \<lparr>up_sampled_vector = replicate 16 16777216, decoded_data = replicate 16 2\<rparr>
   \<and> (16777216 :: 32 word) \<noteq> 16777215 + 2"
  by code_simp

section \<open>Adding a block of zeros\<close>

text \<open>
  Claim C8, as amended. On arrays of at least 16 elements: when the first 16 elements of
  \<^verbatim>\<open>decoded_data\<close> are zero and those of \<^verbatim>\<open>up_sampled_vector\<close> are integers binary32
  holds, \<^verbatim>\<open>combine_samples\<close> leaves the memory as it was; when the first 16 elements of
  \<^verbatim>\<open>up_sampled_vector\<close> are zero, it overwrites them with the elements of
  \<^verbatim>\<open>decoded_data\<close>, sign-extended to 32 bits.
\<close>

theorem combine_zero_identity:
  "(16 \<le> length (up_sampled_vector mem) \<and> 16 \<le> length (decoded_data mem)
      \<and> (\<forall>i<16. decoded_data mem ! i = 0 \<and> f32_holds (sint (up_sampled_vector mem ! i)))
     \<longrightarrow> combine_samples mem = Some mem)
   \<and> (16 \<le> length (up_sampled_vector mem) \<and> 16 \<le> length (decoded_data mem)
      \<and> (\<forall>i<16. up_sampled_vector mem ! i = 0)
     \<longrightarrow> combine_samples mem = Some (mem\<lparr>up_sampled_vector :=
           map (\<lambda>i. scast (decoded_data mem ! i)) [0..<16] @ drop 16 (up_sampled_vector mem)\<rparr>))"
  using combine_zero_decoded_gen [of mem] combine_zero_up [of mem] by blast

theorem combine_zero_identity_witness:
  "combine_samples \<lparr>up_sampled_vector = replicate 16 33554432, decoded_data = replicate 16 0\<rparr>
     = Some \<lparr>up_sampled_vector = replicate 16 33554432, decoded_data = replicate 16 0\<rparr>
   \<and> combine_samples \<lparr>up_sampled_vector = replicate 16 0, decoded_data = replicate 16 (- 32768)\<rparr>
     = Some \<lparr>up_sampled_vector = replicate 16 (- 32768), decoded_data = replicate 16 (- 32768)\<rparr>"
proof -
  let ?A = "\<lparr>up_sampled_vector = replicate 16 (33554432 :: 32 word),
             decoded_data = replicate 16 (0 :: 16 word)\<rparr>"
  let ?B = "\<lparr>up_sampled_vector = replicate 16 (0 :: 32 word),
             decoded_data = replicate 16 (- 32768 :: 16 word)\<rparr>"
  have hh: "f32_holds 33554432"
    by code_simp
  have a: "16 \<le> length (up_sampled_vector ?A) \<and> 16 \<le> length (decoded_data ?A)
      \<and> (\<forall>i<16. decoded_data ?A ! i = 0 \<and> f32_holds (sint (up_sampled_vector ?A ! i)))"
    using hh by simp
  have b: "16 \<le> length (up_sampled_vector ?B) \<and> 16 \<le> length (decoded_data ?B)
      \<and> (\<forall>i<16. up_sampled_vector ?B ! i = 0)"
    by simp
  have e: "?B\<lparr>up_sampled_vector :=
             map (\<lambda>i. scast (decoded_data ?B ! i)) [0..<16] @ drop 16 (up_sampled_vector ?B)\<rparr>
           = \<lparr>up_sampled_vector = replicate 16 (- 32768), decoded_data = replicate 16 (- 32768)\<rparr>"
    by code_simp
  have "combine_samples ?A = Some ?A"
    using combine_zero_identity [of ?A] a by blast
  moreover have "combine_samples ?B = Some (?B\<lparr>up_sampled_vector :=
             map (\<lambda>i. scast (decoded_data ?B ! i)) [0..<16] @ drop 16 (up_sampled_vector ?B)\<rparr>)"
    using combine_zero_identity [of ?B] b by blast
  ultimately show ?thesis by (simp only: e)
qed

text \<open>
  For the other 32-bit values the claim fails: 16777217 is not a binary32 value, the
  gather rounds it to 16777216, and that is what is stored back.
\<close>

theorem combine_zero_identity_counterexample:
  "combine_samples \<lparr>up_sampled_vector = replicate 16 16777217, decoded_data = replicate 16 0\<rparr>
     = Some \<lparr>up_sampled_vector = replicate 16 16777216, decoded_data = replicate 16 0\<rparr>
   \<and> replicate 16 (16777216 :: 32 word) \<noteq> replicate 16 16777217"
  by code_simp

end
